theory Spec2Isabelle
  imports Complex_Main
begin

section \<open>JavaScript arithmetic and arrays\<close>

text \<open>
  The engine of \<^verbatim>\<open>assets/js/piano.js\<close> computes with JavaScript numbers, which are
  IEEE 754 doubles. Key numbers and array indices are integers and are modelled as
  \<^typ>\<open>int\<close>; times, tempi and durations are modelled as \<^typ>\<open>real\<close> (\<^verbatim>\<open>NaN\<close> and
  infinities are outside the model).

  The remainder operator \<^verbatim>\<open>%\<close> truncates towards zero: the result has the sign of the
  dividend. On doubles it is exact.
\<close>

definition js_rem_int :: "int \<Rightarrow> int \<Rightarrow> int" where
  "js_rem_int a b = sgn a * (\<bar>a\<bar> mod \<bar>b\<bar>)"

definition js_trunc :: "real \<Rightarrow> int" where
  "js_trunc x = (if x < 0 then \<lceil>x\<rceil> else \<lfloor>x\<rfloor>)"

definition js_rem :: "real \<Rightarrow> real \<Rightarrow> real" where
  "js_rem a b = a - b * of_int (js_trunc (a / b))"

text \<open>
  A double is a real number \<open>m * 2 ^ e\<close> with an integer significand \<open>\<bar>m\<bar> < 2 ^ 53\<close>. The
  operators \<^verbatim>\<open>+\<close>, \<^verbatim>\<open>-\<close>, \<^verbatim>\<open>*\<close> and \<^verbatim>\<open>/\<close> give the double nearest to the exact result, a
  tie going to the even significand: \<open>fl x\<close> is that double for the exact result \<open>x\<close>. For
  \<open>2 ^ k \<le> \<bar>x\<bar> < 2 ^ (k + 1)\<close> the doubles around \<open>x\<close> are the multiples of
  \<open>quantum x = 2 ^ (k - 52)\<close>, and \<open>rne\<close> rounds to the nearest integer, a tie going to
  the even one. The exponent is not bounded: overflow and the subnormal range of doubles
  are outside the model.

  The timebase of the engine (\<open>beatsToSeconds\<close>, \<open>getInterval\<close>, \<open>roundToOffset\<close>) and the
  position and the \<open>callModelEnd\<close> that \<open>rewind\<close> computes are modelled with these
  operators: whether a time that was rounded to the tick grid lies above the time it was
  computed from depends on the rounding. The other sums and differences of times are
  written as in the code and are exact.
\<close>

definition pow2 :: "int \<Rightarrow> real" where
  "pow2 e = 2 powr of_int e"

definition rne :: "real \<Rightarrow> int" where
  "rne y = (let n = \<lfloor>y\<rfloor>; r = y - of_int n
            in if r < 1/2 then n else if 1/2 < r then n + 1
               else if even n then n else n + 1)"

definition expo :: "real \<Rightarrow> int" where
  "expo x = \<lfloor>log 2 \<bar>x\<bar>\<rfloor>"

definition quantum :: "real \<Rightarrow> real" where
  "quantum x = pow2 (expo x - 52)"

definition fl :: "real \<Rightarrow> real" where
  "fl x = (if x = 0 then 0 else of_int (rne (x / quantum x)) * quantum x)"

definition is_double :: "real \<Rightarrow> bool" where
  "is_double x \<longleftrightarrow> (\<exists>m e. \<bar>m\<bar> < 2 ^ 53 \<and> x = of_int m * pow2 e)"

definition js_add :: "real \<Rightarrow> real \<Rightarrow> real" where
  "js_add a b = fl (a + b)"

definition js_sub :: "real \<Rightarrow> real \<Rightarrow> real" where
  "js_sub a b = fl (a - b)"

definition js_mul :: "real \<Rightarrow> real \<Rightarrow> real" where
  "js_mul a b = fl (a * b)"

definition js_div :: "real \<Rightarrow> real \<Rightarrow> real" where
  "js_div a b = fl (a / b)"

text \<open>\<^verbatim>\<open>Array.prototype.indexOf\<close> (\<open>-1\<close> when absent), \<^verbatim>\<open>includes\<close>, and an indexed read
  \<^verbatim>\<open>xs[i]\<close>, which is \<^verbatim>\<open>undefined\<close> (here \<open>None\<close>) outside the array.\<close>

fun indexOf :: "'a list \<Rightarrow> 'a \<Rightarrow> int" where
  "indexOf [] x = -1"
| "indexOf (y # ys) x =
     (if y = x then 0 else (let i = indexOf ys x in if i < 0 then -1 else i + 1))"

definition array_includes :: "'a list \<Rightarrow> 'a \<Rightarrow> bool" where
  "array_includes xs x = (indexOf xs x \<noteq> -1)"

definition at_index :: "'a list \<Rightarrow> int \<Rightarrow> 'a option" where
  "at_index xs i = (if 0 \<le> i \<and> i < int (length xs) then Some (xs ! nat i) else None)"

section \<open>PianoKey: key numbering\<close>

text \<open>The static helpers of class \<^verbatim>\<open>PianoKey\<close> (piano.js, lines 557--605). A sum with
  \<^verbatim>\<open>undefined\<close> is \<^verbatim>\<open>NaN\<close>; \<open>calcKeyNumFromColourKeyNum\<close> returns \<open>None\<close> for it.\<close>

definition whiteKeyNumbers :: "int list" where
  "whiteKeyNumbers = [1, 3, 5, 6, 8, 10, 12]"

definition blackKeyNumbers :: "int list" where
  "blackKeyNumbers = [2, 4, 7, 9, 11]"

definition calcOctave :: "int \<Rightarrow> int" where
  "calcOctave keyNum = (keyNum + 9) div 12"

definition calcOctaveKeyNum :: "int \<Rightarrow> int" where
  "calcOctaveKeyNum keyNum = js_rem_int (keyNum + 9) 12 + 1"

definition calcIsWhiteKey :: "int \<Rightarrow> bool" where
  "calcIsWhiteKey keyNum =
     (let octaveKeyNum = calcOctaveKeyNum keyNum
      in array_includes whiteKeyNumbers octaveKeyNum)"

definition calcColourKeyNum :: "int \<Rightarrow> int" where
  "calcColourKeyNum keyNum =
     (let octave = calcOctave keyNum;
          octaveKeyNum = calcOctaveKeyNum keyNum;
          isWhiteKey = calcIsWhiteKey keyNum
      in if isWhiteKey
         then indexOf whiteKeyNumbers octaveKeyNum + (octave * 7) - 5
         else indexOf blackKeyNumbers octaveKeyNum + (octave * 5) - 4)"

definition calcKeyNumFromColourKeyNum :: "int \<Rightarrow> bool \<Rightarrow> int option" where
  "calcKeyNumFromColourKeyNum colourKeyNum isWhiteKey =
     (if isWhiteKey then
        (let octave = (colourKeyNum + 5) div 7;
             octaveColourKeyNum = js_rem_int (colourKeyNum + 5) 7
         in map_option (\<lambda>n. (octave * 12) - 10 + n)
              (at_index whiteKeyNumbers octaveColourKeyNum))
      else
        (let octave = (colourKeyNum + 4) div 5;
             octaveColourKeyNum = js_rem_int (colourKeyNum + 4) 5
         in map_option (\<lambda>n. (octave * 12) - 10 + n)
              (at_index blackKeyNumbers octaveColourKeyNum)))"

section \<open>Notes and histories\<close>

text \<open>
  Modelled from the spec: the classes \<^verbatim>\<open>Note\<close>, \<^verbatim>\<open>History\<close> and \<^verbatim>\<open>Actor\<close> are used by
  class \<^verbatim>\<open>Piano\<close> but are not part of piano.js. Their fields are those of the spec's data
  model (section 3) and of the constructor calls in piano.js,
  \<^verbatim>\<open>new Note(key, velocity, duration, time, actor, scheduleId, isRewind)\<close> and
  \<^verbatim>\<open>new History(bpm, name)\<close>.

  A \<^verbatim>\<open>Note\<close> is an object shared by reference between the active set, the current
  History, the queue and the buffer, and \<open>releaseNote\<close> writes to it. Notes therefore live
  in a store (a map from references to notes) and the arrays hold references. A piano key
  is identified by its key number; \<open>None\<close> is \<^verbatim>\<open>undefined\<close>, the value of
  \<^verbatim>\<open>this.pianoKeys[keyNum]\<close> beyond the keyboard.
\<close>

datatype actor = Player | Model | Bot

type_synonym ref = nat

record Note =
  key :: "nat option"
  velocity :: real
  duration :: real
  time :: real
  actor :: actor
  scheduleId :: "nat option"
  isRewind :: bool

record History =
  noteHistory :: "ref list"
  bpm :: real
  name :: string
  lastSeedNoteTime :: "real option"
  parentHistory :: "nat option"
  isNew :: bool
  hid :: nat

text \<open>Modelled from the spec: \<^verbatim>\<open>new History(bpm, name)\<close>, a new and empty History. Its
  identity is \<open>hid\<close>; \<open>parentHistory\<close> holds the identity of the History it was copied
  from.\<close>

definition History_new :: "nat \<Rightarrow> real \<Rightarrow> string \<Rightarrow> History" where
  "History_new i b n =
     \<lparr>noteHistory = [], bpm = b, name = n, lastSeedNoteTime = None,
      parentHistory = None, isNew = True, hid = i\<rparr>"

text \<open>Modelled from the spec: \<^verbatim>\<open>History.add(note)\<close> (section 4.2) appends, preserving sort
  order, and inserts in place when the time is not increasing: the note goes before the
  first strictly later note, which is the end of the sequence when there is none. The
  first argument reads the time of a note from the store.\<close>

fun History_add :: "(ref \<Rightarrow> real) \<Rightarrow> ref \<Rightarrow> ref list \<Rightarrow> ref list" where
  "History_add tm n [] = [n]"
| "History_add tm n (m # ms) =
     (if tm n < tm m then n # m # ms else m # History_add tm n ms)"

text \<open>Modelled from the spec: \<^verbatim>\<open>History.getRecentHistory(notes, start)\<close> (section 4.2 and
  section 8) returns the maximal suffix of notes with \<open>time \<ge> start\<close>, scanning from the
  end and stopping at the first earlier note, in the original order. (The method
  \<^verbatim>\<open>getRecentHistory\<close> of lines 1288--1299 belongs to another class, the third class
  \<^verbatim>\<open>Piano\<close> of piano.js, and works on entries \<^verbatim>\<open>{note, position}\<close>; the engine does not call
  it.)\<close>

definition History_getRecentHistory :: "(ref \<Rightarrow> real) \<Rightarrow> ref list \<Rightarrow> real \<Rightarrow> ref list" where
  "History_getRecentHistory tm notes start = rev (takeWhile (\<lambda>n. tm n \<ge> start) (rev notes))"

text \<open>Modelled from the spec: \<^verbatim>\<open>History.removeHistory(notes, cutoff)\<close> (section 4.2)
  returns the prefix of notes with \<open>time < cutoff\<close>.\<close>

definition History_removeHistory :: "(ref \<Rightarrow> real) \<Rightarrow> ref list \<Rightarrow> real \<Rightarrow> ref list" where
  "History_removeHistory tm notes cutoff = takeWhile (\<lambda>n. tm n < cutoff) notes"

text \<open>Modelled from the spec: both are pure, non-mutating queries, and the caller decides
  whether to replace the stored sequence (section 4.2). A sequence is an array, an object
  of its own: arrays live in a store, and a call on the array \<open>notes\<close> puts its result in
  a new array and writes to no other. Each call returns the new array and the store it
  leaves.\<close>

record array_store =
  arrays :: "nat \<Rightarrow> ref list"
  nextArray :: nat

definition History_getRecentHistory_call ::
  "(ref \<Rightarrow> real) \<Rightarrow> nat \<Rightarrow> real \<Rightarrow> array_store \<Rightarrow> nat \<times> array_store" where
  "History_getRecentHistory_call tm notes start st =
     (nextArray st,
      st\<lparr>arrays := (arrays st)(nextArray st :=
             History_getRecentHistory tm (arrays st notes) start),
         nextArray := Suc (nextArray st)\<rparr>)"

definition History_removeHistory_call ::
  "(ref \<Rightarrow> real) \<Rightarrow> nat \<Rightarrow> real \<Rightarrow> array_store \<Rightarrow> nat \<times> array_store" where
  "History_removeHistory_call tm notes cutoff st =
     (nextArray st,
      st\<lparr>arrays := (arrays st)(nextArray st :=
             History_removeHistory tm (arrays st notes) cutoff),
         nextArray := Suc (nextArray st)\<rparr>)"

text \<open>Modelled from the spec: \<^verbatim>\<open>History.copy()\<close> (section 3) is a new History with the same
  notes, bpm and name, and \<open>parentHistory\<close> pointing at the original. \<open>rewind\<close> reads
  \<open>lastSeedNoteTime\<close> from the copy (section 4.6, step 5), so the copy carries it.\<close>

definition History_copy :: "nat \<Rightarrow> History \<Rightarrow> History" where
  "History_copy i h =
     \<lparr>noteHistory = noteHistory h, bpm = bpm h, name = name h,
      lastSeedNoteTime = lastSeedNoteTime h, parentHistory = Some (hid h),
      isNew = True, hid = i\<rparr>"

section \<open>Piano: the engine state\<close>

text \<open>
  The second class \<^verbatim>\<open>Piano\<close> of piano.js (lines 623--1092) is the engine. Its state is the
  record \<open>piano\<close>: the fields the constructor initialises, the fields assigned later
  (\<open>callModelEnd\<close>, \<open>awaitingInput\<close> and the timer identifiers), and what the engine reads
  and writes in its collaborators: the tempo and the started flag of \<^verbatim>\<open>pianoAudio\<close>, the
  position and the scheduled callbacks of \<^verbatim>\<open>Tone.Transport\<close>, the commands sent to the
  sampler, and the calls sent to the generative model. Calls to the renderer
  (\<^verbatim>\<open>notesCanvas\<close>, \<^verbatim>\<open>pianoCanvas\<close>), to \<^verbatim>\<open>NProgress\<close> and to the document change nothing the
  engine reads and are left out; they are assumed not to throw.

  Clock readings (\<^verbatim>\<open>new Date()\<close> in milliseconds, \<^verbatim>\<open>Tone.now()\<close> in seconds) are
  arguments. A timer field is \<open>None\<close> when no timer runs and holds the period or delay in
  milliseconds otherwise. \<open>callModelEnd\<close> is unassigned until \<open>seedInputAwaiter\<close>,
  \<open>scheduleStartModel\<close> or \<open>rewind\<close> assigns it, and is read only after; it starts as \<open>0\<close>.
\<close>

datatype error = RangeError | TypeError | NotANumber

datatype 'a outcome = Returned 'a | Threw error 'a

fun state_of :: "'a outcome \<Rightarrow> 'a" where
  "state_of (Returned s) = s"
| "state_of (Threw e s) = s"

definition and_then :: "'a outcome \<Rightarrow> ('a \<Rightarrow> 'a outcome) \<Rightarrow> 'a outcome" where
  "and_then r f = (case r of Returned s \<Rightarrow> f s | Threw e s \<Rightarrow> Threw e s)"

datatype audio_cmd =
    TriggerAttack nat real real
  | TriggerAttackRelease nat real real real
  | TriggerRelease nat real

record generated =
  gen_keyNum :: nat
  gen_velocity :: real
  gen_duration :: real
  gen_time :: real

record model_call =
  initiatedTime :: int
  scheduleImmediately :: bool
  context_notes :: "ref list"
  windowStart :: real
  windowEnd :: real
  tickInterval :: real
  bufferLength :: real
  numRepeats :: nat
  selectionIdx :: nat

record piano =
  numKeys :: nat
  ticksPerBeat :: real
  audio_bpm :: real
  toneStarted :: bool
  awaitingInput :: bool
  lastActivity :: int
  modelStartTime :: "int option"
  currHistory :: "History option"
  allHistories :: "History list"
  activeNotes :: "ref list"
  noteQueue :: "ref list"
  noteBuffer :: "ref list"
  callModelEnd :: real
  transportSeconds :: real
  transportEvents :: "(nat \<times> ref) list"
  nextScheduleId :: nat
  heap :: "ref \<Rightarrow> Note"
  nextRef :: ref
  nextHid :: nat
  sampler :: "audio_cmd list"
  modelCalls :: "model_call list"
  callModelIntervalId :: "real option"
  checkActivityIntervalId :: "real option"
  listenerIntervalId :: "real option"
  startModelScheduleId :: "real option"

definition bufferBeats :: real where
  "bufferBeats = 6"

definition historyWindowBeats :: real where
  "historyWindowBeats = 42"

definition defaultBPM :: real where
  "defaultBPM = 80"

definition empty_note :: Note where
  "empty_note = \<lparr>key = None, velocity = 0, duration = 0, time = 0, actor = Player,
                  scheduleId = None, isRewind = False\<rparr>"

text \<open>The constructor (lines 624--651). \<^verbatim>\<open>PianoKey.createPianoKeys\<close> of this version is not
  in piano.js; the number of keys is that of \<^verbatim>\<open>Piano.createPianoKeys\<close> (lines 27--35),
  whose loop \<^verbatim>\<open>for (i = 0; i < numKeys; i++)\<close> makes \<open>\<lceil>numKeys\<rceil>\<close> keys.\<close>

definition initial_piano :: "real \<Rightarrow> real \<Rightarrow> int \<Rightarrow> piano" where
  "initial_piano octaves tpb now =
     \<lparr>numKeys = nat \<lceil>(7 * octaves + 3) + (5 * octaves + 1)\<rceil>,
      ticksPerBeat = tpb, audio_bpm = defaultBPM, toneStarted = False,
      awaitingInput = False, lastActivity = now, modelStartTime = None,
      currHistory = None, allHistories = [], activeNotes = [], noteQueue = [],
      noteBuffer = [], callModelEnd = 0, transportSeconds = 0,
      transportEvents = [], nextScheduleId = 0, heap = (\<lambda>r. empty_note),
      nextRef = 0, nextHid = 0, sampler = [], modelCalls = [],
      callModelIntervalId = None, checkActivityIntervalId = None,
      listenerIntervalId = None, startModelScheduleId = None\<rparr>"

definition Piano_constructor :: "real \<Rightarrow> real \<Rightarrow> int \<Rightarrow> error + piano" where
  "Piano_constructor octaves tpb now =
     (if octaves < 1 \<or> octaves > 7 then Inl RangeError
      else Inr (initial_piano octaves tpb now))"

definition pianoKeys_at :: "piano \<Rightarrow> nat \<Rightarrow> nat option" where
  "pianoKeys_at s keyNum = (if keyNum < numKeys s then Some keyNum else None)"

definition new_Note :: "Note \<Rightarrow> piano \<Rightarrow> ref \<times> piano" where
  "new_Note n s = (nextRef s, s\<lparr>heap := (heap s)(nextRef s := n), nextRef := Suc (nextRef s)\<rparr>)"

definition note_time :: "piano \<Rightarrow> ref \<Rightarrow> real" where
  "note_time s = (\<lambda>n. time (heap s n))"

subsection \<open>Clock and timebase (lines 653--668)\<close>

text \<open>In double arithmetic. \<open>time - remainder + interval\<close> is
  \<open>(time - remainder) + interval\<close>.\<close>

definition beatsToSeconds :: "piano \<Rightarrow> real \<Rightarrow> real" where
  "beatsToSeconds s beats = js_mul (js_div beats (audio_bpm s)) 60"

definition getInterval :: "piano \<Rightarrow> real" where
  "getInterval s = beatsToSeconds s (js_div 1 (ticksPerBeat s))"

definition roundToOffset :: "piano \<Rightarrow> real \<Rightarrow> real" where
  "roundToOffset s t =
     (let interval = beatsToSeconds s (js_div 1 (ticksPerBeat s));
          remainder = js_rem (js_add t (js_div interval 2)) interval
      in js_add (js_sub t remainder) interval)"

subsection \<open>Playing and releasing notes (lines 704--758)\<close>

text \<open>\<open>releaseNote pianoKey triggerTime toneNow\<close>: \<^verbatim>\<open>find\<close> gives the first active note of the
  key and \<^verbatim>\<open>splice(indexOf(activeNote), 1)\<close> removes its first occurrence. Reading
  \<^verbatim>\<open>pianoKey.keyName\<close> of an undefined key throws a TypeError.\<close>

definition releaseNote :: "nat option \<Rightarrow> real \<Rightarrow> real \<Rightarrow> piano \<Rightarrow> piano outcome" where
  "releaseNote pianoKey triggerTime toneNow s =
     (case find (\<lambda>n. key (heap s n) = pianoKey) (activeNotes s) of
        None \<Rightarrow> Returned s
      | Some activeNote \<Rightarrow>
          (let s1 = s\<lparr>activeNotes := remove1 activeNote (activeNotes s)\<rparr>;
               finalDuration = triggerTime - time (heap s1 activeNote)
           in if \<bar>duration (heap s1 activeNote) - finalDuration\<bar> > 0.001
              then (case pianoKey of
                      None \<Rightarrow> Threw TypeError s1
                    | Some k \<Rightarrow>
                        Returned (s1\<lparr>sampler := sampler s1 @ [TriggerRelease k (toneNow + 0.1)],
                                     heap := (heap s1)(activeNote :=
                                       (heap s1 activeNote)\<lparr>duration := finalDuration\<rparr>)\<rparr>))
              else Returned s1))"

text \<open>\<open>playNote note contextTime toneNow\<close>, for a note of the store.\<close>

definition playNote :: "ref \<Rightarrow> real \<Rightarrow> real \<Rightarrow> piano \<Rightarrow> piano outcome" where
  "playNote note contextTime toneNow s =
     and_then (releaseNote (key (heap s note)) (time (heap s note)) toneNow s) (\<lambda>s1.
       case key (heap s1 note) of
         None \<Rightarrow> Threw TypeError s1
       | Some k \<Rightarrow>
           (let n = heap s1 note;
                s2 = s1\<lparr>sampler := sampler s1 @
                       [if duration n = -1 then TriggerAttack k contextTime (velocity n)
                        else TriggerAttackRelease k (duration n + 0.15) contextTime (velocity n)]\<rparr>;
                s3 = s2\<lparr>activeNotes := activeNotes s2 @ [note]\<rparr>
            in case currHistory s3 of
                 None \<Rightarrow> Threw TypeError s3
               | Some h \<Rightarrow>
                   Returned (s3\<lparr>currHistory :=
                                  Some (h\<lparr>noteHistory := History_add (note_time s3) note (noteHistory h)\<rparr>),
                                noteQueue := remove1 note (noteQueue s3)\<rparr>)))"

text \<open>\<open>releaseAllNotes\<close> iterates over a copy of the active set; each \<open>releaseNote\<close> takes
  the transport position as its trigger time.\<close>

fun releaseAllNotes_loop :: "ref list \<Rightarrow> real \<Rightarrow> piano \<Rightarrow> piano outcome" where
  "releaseAllNotes_loop [] toneNow s = Returned s"
| "releaseAllNotes_loop (note # notes) toneNow s =
     and_then (releaseNote (key (heap s note)) (transportSeconds s) toneNow s)
       (releaseAllNotes_loop notes toneNow)"

definition releaseAllNotes :: "real \<Rightarrow> piano \<Rightarrow> piano outcome" where
  "releaseAllNotes toneNow s = releaseAllNotes_loop (activeNotes s) toneNow s"

text \<open>\<open>scheduleNote\<close>: \<^verbatim>\<open>Tone.Transport.scheduleOnce\<close> returns a fresh identifier, which is
  stored in the note; the callback, which plays the note, is kept with it in
  \<open>transportEvents\<close>.\<close>

definition scheduleNote :: "ref \<Rightarrow> piano \<Rightarrow> piano" where
  "scheduleNote note s =
     s\<lparr>heap := (heap s)(note := (heap s note)\<lparr>scheduleId := Some (nextScheduleId s)\<rparr>),
       transportEvents := transportEvents s @ [(nextScheduleId s, note)],
       nextScheduleId := Suc (nextScheduleId s),
       noteQueue := noteQueue s @ [note]\<rparr>"

text \<open>The transport runs the callback of a scheduled note once and forgets it.\<close>

definition transport_fires :: "nat \<Rightarrow> real \<Rightarrow> real \<Rightarrow> piano \<Rightarrow> piano outcome" where
  "transport_fires i contextTime toneNow s =
     (case map_of (transportEvents s) i of
        None \<Rightarrow> Returned s
      | Some note \<Rightarrow>
          playNote note contextTime toneNow
            (s\<lparr>transportEvents := filter (\<lambda>e. fst e \<noteq> i) (transportEvents s)\<rparr>))"

subsection \<open>Calling the model (lines 760--829)\<close>

text \<open>
  \<open>callModel\<close> is asynchronous. Up to its \<^verbatim>\<open>await\<close> it only reads the state and calls the
  model: \<open>callModel_request\<close> is the call it makes (\<open>None\<close> when reading
  \<^verbatim>\<open>this.currHistory.noteHistory\<close> fails, which rejects the promise and makes no call), and
  \<open>callModel\<close> records the call in \<open>modelCalls\<close>. \<open>callModel_resume\<close> is the rest of the
  function, run when the result of that call arrives, on the state of that moment.
\<close>

definition callModel_request :: "int \<Rightarrow> bool \<Rightarrow> piano \<Rightarrow> model_call option" where
  "callModel_request now sched s =
     (let start = max (callModelEnd s - beatsToSeconds s historyWindowBeats)
                      (- getInterval s / 2)
      in case currHistory s of
           None \<Rightarrow> None
         | Some h \<Rightarrow>
             Some \<lparr>initiatedTime = now, scheduleImmediately = sched,
                   context_notes =
                     History_getRecentHistory (note_time s) (noteHistory h) start @
                     History_getRecentHistory (note_time s) (noteQueue s) start,
                   windowStart = start, windowEnd = callModelEnd s,
                   tickInterval = getInterval s,
                   bufferLength = bufferBeats * ticksPerBeat s,
                   numRepeats = 3, selectionIdx = 1\<rparr>)"

definition callModel :: "int \<Rightarrow> bool \<Rightarrow> piano \<Rightarrow> piano" where
  "callModel now sched s =
     (case callModel_request now sched s of
        None \<Rightarrow> s
      | Some c \<Rightarrow> s\<lparr>modelCalls := modelCalls s @ [c]\<rparr>)"

definition generated_Note :: "piano \<Rightarrow> generated \<Rightarrow> Note" where
  "generated_Note s gen =
     \<lparr>key = pianoKeys_at s (gen_keyNum gen), velocity = gen_velocity gen,
      duration = gen_duration gen, time = gen_time gen, actor = Model,
      scheduleId = None, isRewind = False\<rparr>"

fun callModel_notes :: "bool \<Rightarrow> generated list \<Rightarrow> piano \<Rightarrow> piano" where
  "callModel_notes sched [] s = s"
| "callModel_notes sched (gen # gens) s =
     (let (note, s1) = new_Note (generated_Note s gen) s
      in callModel_notes sched gens
           (if sched then scheduleNote note s1
            else s1\<lparr>noteBuffer := noteBuffer s1 @ [note]\<rparr>))"

definition callModel_resume :: "model_call \<Rightarrow> generated list \<Rightarrow> piano \<Rightarrow> piano" where
  "callModel_resume c gens s =
     (case modelStartTime s of
        None \<Rightarrow> s
      | Some started \<Rightarrow>
          if initiatedTime c \<ge> started
          then (let s1 = callModel_notes (scheduleImmediately c) gens s
                in s1\<lparr>callModelEnd := callModelEnd s1 + beatsToSeconds s1 bufferBeats\<rparr>)
          else s)"

text \<open>\<open>startModel now now'\<close>: \<open>now\<close> is the clock read by \<open>startModel\<close> and \<open>now'\<close> the one
  read by the \<open>callModel\<close> it runs.\<close>

definition startModel :: "int \<Rightarrow> int \<Rightarrow> piano \<Rightarrow> piano" where
  "startModel now now' s =
     (let s1 = callModel now' True (s\<lparr>modelStartTime := Some now\<rparr>)
      in s1\<lparr>callModelIntervalId := Some (beatsToSeconds s1 bufferBeats * 1000),
            checkActivityIntervalId := Some 5000\<rparr>)"

text \<open>\<open>stopModel\<close> clears the scheduled callback of every queued note.\<close>

definition stopModel :: "piano \<Rightarrow> piano" where
  "stopModel s =
     s\<lparr>transportEvents :=
         filter (\<lambda>e. Some (fst e) \<notin> set (map (\<lambda>n. scheduleId (heap s n)) (noteQueue s)))
           (transportEvents s),
       noteQueue := [], noteBuffer := [], modelStartTime := None,
       callModelIntervalId := None, checkActivityIntervalId := None\<rparr>"

subsection \<open>Archiving and reset (lines 831--847 and 981--1028)\<close>

text \<open>\<open>addToHistoryList\<close> pushes the History and then builds its list entry, for which it
  reads \<^verbatim>\<open>history.noteHistory.at(-1).time\<close>: a TypeError when the History has no note.
  In \<open>resetAll\<close>, \<^verbatim>\<open>Tone.Transport.cancel()\<close> drops every scheduled callback; what
  \<^verbatim>\<open>Tone.Transport.stop()\<close> does to the transport is not modelled.\<close>

definition addToHistoryList :: "History option \<Rightarrow> piano \<Rightarrow> piano outcome" where
  "addToHistoryList history s =
     (case history of
        None \<Rightarrow> Returned s
      | Some h \<Rightarrow>
          if \<not> isNew h then Returned s
          else (let s1 = s\<lparr>allHistories := allHistories s @ [h]\<rparr>
                in if noteHistory h = [] then Threw TypeError s1 else Returned s1))"

definition resetAll :: "real \<Rightarrow> piano \<Rightarrow> piano outcome" where
  "resetAll toneNow s =
     and_then (releaseAllNotes toneNow s) (\<lambda>s1.
       let s2 = (stopModel s1)\<lparr>transportEvents := []\<rparr>
       in and_then (addToHistoryList (currHistory s2) s2) (\<lambda>s3.
            Returned (s3\<lparr>currHistory := None, activeNotes := [], toneStarted := False,
                         listenerIntervalId := None\<rparr>)))"

subsection \<open>The seed input listener (lines 849--906)\<close>

text \<open>\<open>seedInputListener\<close>: \<^verbatim>\<open>pianoAudio.setBPM\<close> sets the tempo.\<close>

definition seedInputListener :: "piano \<Rightarrow> piano" where
  "seedInputListener s =
     (let s1 = s\<lparr>audio_bpm := defaultBPM\<rparr>
      in s1\<lparr>currHistory := Some (History_new (nextHid s1) (audio_bpm s1) ''Player Prompt''),
            nextHid := Suc (nextHid s1), awaitingInput := True,
            listenerIntervalId := Some 50\<rparr>)"

definition inputWaitTime :: int where
  "inputWaitTime = 1500"

fun scheduleNotes :: "ref list \<Rightarrow> piano \<Rightarrow> piano" where
  "scheduleNotes [] s = s"
| "scheduleNotes (note # notes) s = scheduleNotes notes (scheduleNote note s)"

text \<open>\<open>seedInputAwaiter currTime now now' detected\<close>: \<open>currTime\<close> is the clock read on
  entry, \<open>now\<close> and \<open>now'\<close> are the later readings of \<open>startModel\<close> and \<open>callModel\<close>, and
  \<open>detected\<close> is the result of \<^verbatim>\<open>PianoAudio.detectBpm\<close>.\<close>

definition seedInputAwaiter :: "int \<Rightarrow> int \<Rightarrow> int \<Rightarrow> real \<Rightarrow> piano \<Rightarrow> piano outcome" where
  "seedInputAwaiter currTime now now' detected s =
     (if modelStartTime s = None then
        (if currTime - lastActivity s \<ge> inputWaitTime \<and> activeNotes s = [] then
           (case currHistory s of
              None \<Rightarrow> Threw TypeError s
            | Some h \<Rightarrow>
                (let s1 = s\<lparr>audio_bpm := detected, currHistory := Some (h\<lparr>bpm := detected\<rparr>)\<rparr>
                 in if noteHistory h = [] then Threw TypeError s1
                    else (let t = note_time s1 (last (noteHistory h));
                              s2 = s1\<lparr>currHistory :=
                                         Some (h\<lparr>bpm := detected, lastSeedNoteTime := Some t\<rparr>)\<rparr>;
                              s3 = s2\<lparr>callModelEnd := roundToOffset s2 t\<rparr>;
                              s4 = s3\<lparr>modelStartTime := Some currTime\<rparr>
                          in Returned (callModel now' False s4))))
         else Returned s)
      else
        (if currTime - lastActivity s < inputWaitTime then Returned (stopModel s)
         else if currTime - lastActivity s \<ge> inputWaitTime * 3 then
           (let s1 = s\<lparr>transportSeconds := callModelEnd s - beatsToSeconds s bufferBeats\<rparr>;
                s2 = scheduleNotes (noteBuffer s1) s1;
                s3 = s2\<lparr>noteBuffer := []\<rparr>;
                s4 = startModel now now' s3
            in Returned (s4\<lparr>awaitingInput := False, listenerIntervalId := None\<rparr>))
         else Returned s))"

subsection \<open>Rewind (lines 924--979)\<close>

text \<open>The loop that commits queued notes to the current History: \<open>tm\<close> reads the time of
  a note and \<open>e\<close> is \<open>callModelEnd\<close>.\<close>

fun commit_queued :: "(ref \<Rightarrow> real) \<Rightarrow> real \<Rightarrow> ref list \<Rightarrow> ref list \<Rightarrow> ref list" where
  "commit_queued tm e [] hist = hist"
| "commit_queued tm e (note # notes) hist =
     commit_queued tm e notes (if tm note \<le> e then History_add tm note hist else hist)"

fun replay_notes :: "ref list \<Rightarrow> piano \<Rightarrow> piano" where
  "replay_notes [] s = s"
| "replay_notes (note # notes) s =
     (let n = heap s note;
          (newNote, s1) = new_Note \<lparr>key = key n, velocity = velocity n, duration = duration n,
                                    time = time n, actor = actor n, scheduleId = None,
                                    isRewind = True\<rparr> s
      in replay_notes notes (scheduleNote newNote s1))"

definition replaySeconds :: "piano \<Rightarrow> real" where
  "replaySeconds s =
     (let secondsToReplay = 3;
          replayTimesteps =
            of_int \<lceil>js_div (js_mul (js_mul (ticksPerBeat s) secondsToReplay) (audio_bpm s)) 60\<rceil>
      in beatsToSeconds s (js_div replayTimesteps (ticksPerBeat s)))"

text \<open>\<open>rewind\<close> returns \<^verbatim>\<open>false\<close> at once when the tone has not started or the listener
  awaits input. Arithmetic with an unassigned \<open>lastSeedNoteTime\<close> gives \<^verbatim>\<open>NaN\<close>, which a
  real number cannot hold: the model stops there with \<open>NotANumber\<close>. The new position and
  the new \<open>callModelEnd\<close> are computed in double arithmetic.\<close>

definition rewind :: "piano \<Rightarrow> (bool \<times> piano) outcome" where
  "rewind s =
     (if \<not> toneStarted s \<or> awaitingInput s then Returned (False, s)
      else
        (let queuedNotes = noteQueue s
         in case addToHistoryList (currHistory s) s of
              Threw e s1 \<Rightarrow> Threw e (False, s1)
            | Returned s1 \<Rightarrow>
                (let s2 = (stopModel s1)\<lparr>activeNotes := []\<rparr>
                 in case currHistory s2 of
                      None \<Rightarrow> Threw TypeError (False, s2)
                    | Some h0 \<Rightarrow>
                        (let h = History_copy (nextHid s2) h0;
                             s3 = s2\<lparr>currHistory := Some h, nextHid := Suc (nextHid s2)\<rparr>;
                             secondsToRewind = 8
                         in case lastSeedNoteTime h of
                              None \<Rightarrow> Threw NotANumber (False, s3)
                            | Some seed \<Rightarrow>
                                (let newTransportSeconds =
                                       roundToOffset s3
                                         (max (js_sub (transportSeconds s3) secondsToRewind)
                                              (js_sub seed (replaySeconds s3)));
                                     s4 = s3\<lparr>transportSeconds := newTransportSeconds\<rparr>;
                                     s5 = s4\<lparr>callModelEnd :=
                                            js_add newTransportSeconds (replaySeconds s4)\<rparr>;
                                     committed = commit_queued (note_time s5) (callModelEnd s5) queuedNotes
                                                   (noteHistory h);
                                     replayNotes =
                                       History_removeHistory (note_time s5)
                                         (History_getRecentHistory (note_time s5) committed
                                            newTransportSeconds)
                                         (callModelEnd s5);
                                     s6 = s5\<lparr>currHistory := Some (h\<lparr>noteHistory :=
                                            History_removeHistory (note_time s5) committed
                                              newTransportSeconds\<rparr>)\<rparr>;
                                     s7 = replay_notes replayNotes s6
                                 in Returned (True, s7\<lparr>startModelScheduleId := Some 800\<rparr>))))))"

text \<open>Names for the values \<open>rewind\<close> computes when it goes through, in terms of the state
  \<open>s\<close> it starts from, the current History \<open>h\<close> and its \<open>lastSeedNoteTime\<close>: the new
  transport position, the History after the queued notes are committed, the replay
  window, and the state before the replay window is scheduled.\<close>

definition rewind_target :: "piano \<Rightarrow> real \<Rightarrow> real" where
  "rewind_target s seed =
     roundToOffset s (max (js_sub (transportSeconds s) 8) (js_sub seed (replaySeconds s)))"

definition rewind_committed :: "piano \<Rightarrow> History \<Rightarrow> real \<Rightarrow> ref list" where
  "rewind_committed s h seed =
     commit_queued (note_time s) (js_add (rewind_target s seed) (replaySeconds s)) (noteQueue s)
       (noteHistory h)"

definition rewind_window :: "piano \<Rightarrow> History \<Rightarrow> real \<Rightarrow> ref list" where
  "rewind_window s h seed =
     History_removeHistory (note_time s)
       (History_getRecentHistory (note_time s) (rewind_committed s h seed) (rewind_target s seed))
       (js_add (rewind_target s seed) (replaySeconds s))"

definition rewind_base :: "piano \<Rightarrow> History \<Rightarrow> real \<Rightarrow> piano" where
  "rewind_base s h seed =
     (stopModel (if isNew h then s\<lparr>allHistories := allHistories s @ [h]\<rparr> else s))
       \<lparr>activeNotes := [],
        nextHid := Suc (nextHid s),
        transportSeconds := rewind_target s seed,
        callModelEnd := js_add (rewind_target s seed) (replaySeconds s),
        currHistory := Some ((History_copy (nextHid s) h)\<lparr>noteHistory :=
          History_removeHistory (note_time s) (rewind_committed s h seed) (rewind_target s seed)\<rparr>)\<rparr>"

text \<open>The note \<open>rewind\<close> schedules for a note \<open>n\<close> of the replay window: a new note with the
  fields of \<open>n\<close>, marked as a rewind, which \<open>scheduleNote\<close> gives the identifier \<open>i\<close>. Its
  callback is due at the time of the note.\<close>

definition replayed :: "Note \<Rightarrow> nat \<Rightarrow> Note" where
  "replayed n i = n\<lparr>scheduleId := Some i, isRewind := True\<rparr>"

subsection \<open>Starting the model after a piece (lines 807--812)\<close>

text \<open>\<open>scheduleStartModel\<close> sets \<open>callModelEnd\<close> and schedules a callback that runs
  \<open>startModel\<close>; the callback is an event of its own when it fires.\<close>

definition scheduleStartModel :: "real \<Rightarrow> piano \<Rightarrow> piano" where
  "scheduleStartModel lastNoteTime s = s\<lparr>callModelEnd := roundToOffset s lastNoteTime\<rparr>"

subsection \<open>Runs of the engine\<close>

text \<open>An event is one call of a method of the engine, by an input handler, a timer, the
  transport, or the arrival of a result of the model. \<open>Ev_playNote\<close> is
  \<^verbatim>\<open>playNote(new Note(...))\<close>, as \<open>keyPressed\<close> does it, and \<open>Ev_scheduleNote\<close> is
  \<^verbatim>\<open>scheduleNote(new Note(...))\<close>. The handlers \<open>keyPressed\<close>, \<open>keyDown\<close>, \<open>keyUp\<close> and
  \<open>checkActivity\<close>, and \<open>playExample\<close> and \<open>replayHistory\<close>, run such calls one after the
  other; what they do besides is one of the last six events: a new reading of the
  transport position, the start of the tone, a new \<open>lastActivity\<close>, \<^verbatim>\<open>pianoAudio.setBPM\<close>,
  an assignment to \<open>currHistory\<close>, and \<open>scheduleStartModel\<close>. A run starts from the state
  the constructor builds; after an event that throws it goes on from the state the throw
  left.\<close>

datatype event =
    Ev_playNote Note real real
  | Ev_transport_fires nat real real
  | Ev_releaseNote "nat option" real real
  | Ev_releaseAllNotes real
  | Ev_scheduleNote Note
  | Ev_callModel int bool
  | Ev_model_result model_call "generated list"
  | Ev_startModel int int
  | Ev_stopModel
  | Ev_resetAll real
  | Ev_seedInputListener
  | Ev_seedInputAwaiter int int int real
  | Ev_rewind
  | Ev_transport_advances real
  | Ev_startTone
  | Ev_activity int
  | Ev_setBPM real
  | Ev_currHistory "History option"
  | Ev_scheduleStartModel real

fun step :: "event \<Rightarrow> piano \<Rightarrow> piano" where
  "step (Ev_playNote n contextTime toneNow) s =
     (let (note, s1) = new_Note n s in state_of (playNote note contextTime toneNow s1))"
| "step (Ev_transport_fires i contextTime toneNow) s =
     state_of (transport_fires i contextTime toneNow s)"
| "step (Ev_releaseNote pianoKey triggerTime toneNow) s =
     state_of (releaseNote pianoKey triggerTime toneNow s)"
| "step (Ev_releaseAllNotes toneNow) s = state_of (releaseAllNotes toneNow s)"
| "step (Ev_scheduleNote n) s = (let (note, s1) = new_Note n s in scheduleNote note s1)"
| "step (Ev_callModel now sched) s = callModel now sched s"
| "step (Ev_model_result c gens) s = callModel_resume c gens s"
| "step (Ev_startModel now now') s = startModel now now' s"
| "step Ev_stopModel s = stopModel s"
| "step (Ev_resetAll toneNow) s = state_of (resetAll toneNow s)"
| "step Ev_seedInputListener s = seedInputListener s"
| "step (Ev_seedInputAwaiter currTime now now' detected) s =
     state_of (seedInputAwaiter currTime now now' detected s)"
| "step Ev_rewind s = snd (state_of (rewind s))"
| "step (Ev_transport_advances t) s = s\<lparr>transportSeconds := t\<rparr>"
| "step Ev_startTone s = s\<lparr>toneStarted := True\<rparr>"
| "step (Ev_activity now) s = s\<lparr>lastActivity := now\<rparr>"
| "step (Ev_setBPM b) s = s\<lparr>audio_bpm := b\<rparr>"
| "step (Ev_currHistory h) s = s\<lparr>currHistory := h\<rparr>"
| "step (Ev_scheduleStartModel lastNoteTime) s = scheduleStartModel lastNoteTime s"

fun run :: "event list \<Rightarrow> piano \<Rightarrow> piano" where
  "run [] s = s"
| "run (e # es) s = run es (step e s)"

subsection \<open>The active set\<close>

text \<open>\<open>one_per_key\<close>: no two entries of the active set are notes of the same key.
  \<open>allocated\<close>: the references held by the active set, the transport and the buffer are
  references of notes that were created (\<open>new Note\<close> hands out \<open>nextRef\<close>).\<close>

definition one_per_key :: "piano \<Rightarrow> bool" where
  "one_per_key s = distinct (map (\<lambda>n. key (heap s n)) (activeNotes s))"

definition allocated :: "piano \<Rightarrow> bool" where
  "allocated s =
     ((\<forall>n\<in>set (activeNotes s). n < nextRef s) \<and>
      (\<forall>e\<in>set (transportEvents s). snd e < nextRef s) \<and>
      (\<forall>n\<in>set (noteBuffer s). n < nextRef s))"

definition active_inv :: "piano \<Rightarrow> bool" where
  "active_inv s = (one_per_key s \<and> allocated s)"

subsection \<open>Clock readings of a run\<close>

text \<open>\<open>clocks_after t0 es\<close>: every reading of the clock from which an event of \<open>es\<close> sets
  \<open>modelStartTime\<close> is later than \<open>t0\<close>. \<open>stale_after t0 s\<close>: in \<open>s\<close> the model is stopped or
  was started after \<open>t0\<close>.\<close>

fun clock_after :: "int \<Rightarrow> event \<Rightarrow> bool" where
  "clock_after t0 (Ev_startModel now now') = (t0 < now)"
| "clock_after t0 (Ev_seedInputAwaiter currTime now now' detected) = (t0 < currTime \<and> t0 < now)"
| "clock_after t0 e = True"

fun clocks_after :: "int \<Rightarrow> event list \<Rightarrow> bool" where
  "clocks_after t0 [] = True"
| "clocks_after t0 (e # es) = (clock_after t0 e \<and> clocks_after t0 es)"

definition stale_after :: "int \<Rightarrow> piano \<Rightarrow> bool" where
  "stale_after t0 s = (case modelStartTime s of None \<Rightarrow> True | Some started \<Rightarrow> t0 < started)"

section \<open>Example states\<close>

text \<open>A piano of three octaves with four ticks per beat at the default tempo, playing,
  twelve seconds into a History whose seed ended at ten seconds.\<close>

definition ex_history :: History where
  "ex_history = (History_new 0 80 ''Player Prompt'')\<lparr>noteHistory := [0], lastSeedNoteTime := Some 10\<rparr>"

definition ex_piano :: piano where
  "ex_piano = (initial_piano 3 4 0)\<lparr>toneStarted := True, currHistory := Some ex_history,
     transportSeconds := 12, nextRef := 1, nextHid := 1\<rparr>"

text \<open>The same piano at 70 beats per minute, with a seed that ended at 8.25 seconds.\<close>

definition ex_history_70 :: History where
  "ex_history_70 =
     (History_new 0 70 ''Player Prompt'')\<lparr>noteHistory := [0], lastSeedNoteTime := Some (33/4)\<rparr>"

definition ex_piano_70 :: piano where
  "ex_piano_70 = ex_piano\<lparr>audio_bpm := 70, currHistory := Some ex_history_70\<rparr>"

text \<open>The same piano while a note of key 40, played by the model at time 0 with duration
  1, sounds.\<close>

definition ex_note :: Note where
  "ex_note = \<lparr>key = Some 40, velocity = 0.8, duration = 1, time = 0, actor = Model,
               scheduleId = None, isRewind = False\<rparr>"

definition ex_sounding :: piano where
  "ex_sounding = ex_piano\<lparr>heap := (heap ex_piano)(0 := ex_note), activeNotes := [0]\<rparr>"

text \<open>Key 40 pressed twice without a release in between.\<close>

definition ex_held :: "real \<Rightarrow> Note" where
  "ex_held t = \<lparr>key = Some 40, velocity = 0.8, duration = -1, time = t, actor = Player,
                 scheduleId = None, isRewind = False\<rparr>"

definition ex_events :: "event list" where
  "ex_events = [Ev_startTone, Ev_seedInputListener, Ev_playNote (ex_held 0) 0 0,
                Ev_playNote (ex_held 1) 1 1]"

text \<open>The example piano with the model running since clock reading 100, a call of the
  model made at 150, and a note the model generates.\<close>

definition ex_active :: piano where
  "ex_active = ex_piano\<lparr>modelStartTime := Some 100\<rparr>"

definition ex_call :: model_call where
  "ex_call = \<lparr>initiatedTime = 150, scheduleImmediately = True, context_notes = [0],
               windowStart = - 3/32, windowEnd = 321/32, tickInterval = 3/16,
               bufferLength = 24, numRepeats = 3, selectionIdx = 1\<rparr>"

definition ex_generated :: generated where
  "ex_generated = \<lparr>gen_keyNum = 40, gen_velocity = 0.5, gen_duration = 1, gen_time = 11\<rparr>"

text \<open>The example piano while the listener waits with a first result of the model in the
  buffer: the seed ended at 10 seconds, the first call covered the window up to
  \<open>321/32\<close> and its result moved \<open>callModelEnd\<close> on by the buffer duration, \<open>9/2\<close>.\<close>

definition ex_pending :: piano where
  "ex_pending = ex_piano\<lparr>awaitingInput := True, lastActivity := 0, modelStartTime := Some 1500,
     noteBuffer := [1], heap := (heap ex_piano)(1 := generated_Note ex_piano ex_generated),
     nextRef := 2, callModelEnd := 465/32\<rparr>"

text \<open>The example piano two seconds into an example piece: one note has played, three
  are queued, and the piece ends at 10 seconds.\<close>

definition ex_bot_note :: "real \<Rightarrow> nat option \<Rightarrow> Note" where
  "ex_bot_note t i = \<lparr>key = Some 40, velocity = 0.8, duration = 0.5, time = t, actor = Bot,
                       scheduleId = i, isRewind = False\<rparr>"

definition ex_example :: piano where
  "ex_example = ex_piano\<lparr>transportSeconds := 2,
     heap := (\<lambda>r. empty_note)(0 := ex_bot_note 1 None, 1 := ex_bot_note 5 (Some 0),
               2 := ex_bot_note 8 (Some 1), 3 := ex_bot_note 10 (Some 2)),
     noteQueue := [1, 2, 3], transportEvents := [(0, 1), (1, 2), (2, 3)],
     nextScheduleId := 3, nextRef := 4\<rparr>"

text \<open>A store with one array, the four notes of the example piece in time order.\<close>

definition ex_arrays :: array_store where
  "ex_arrays = \<lparr>arrays = (\<lambda>a. [])(0 := [0, 1, 2, 3]), nextArray = 1\<rparr>"

section \<open>Key numbering is invertible\<close>

lemma js_rem_int_nonneg: "0 \<le> a \<Longrightarrow> 0 < b \<Longrightarrow> js_rem_int a b = a mod b"
  by (simp add: js_rem_int_def sgn_if)

lemma octave_of_residue:
  assumes "keyNum + 9 = 12 * q + r" "0 \<le> q" "0 \<le> r" "r < 12"
  shows "calcOctave keyNum = q" and "calcOctaveKeyNum keyNum = r + 1"
  using assms by (simp_all add: calcOctave_def calcOctaveKeyNum_def js_rem_int_nonneg)

lemma from_white:
  assumes "0 \<le> q" "0 \<le> i" "i < 7"
  shows "calcKeyNumFromColourKeyNum (i + q * 7 - 5) True
           = Some (q * 12 - 10 + whiteKeyNumbers ! nat i)"
proof -
  have "(i + q * 7) div 7 = q" "js_rem_int (i + q * 7) 7 = i"
    using assms by (simp_all add: js_rem_int_nonneg)
  then show ?thesis
    using assms by (simp add: calcKeyNumFromColourKeyNum_def at_index_def whiteKeyNumbers_def)
qed

lemma from_black:
  assumes "0 \<le> q" "0 \<le> i" "i < 5"
  shows "calcKeyNumFromColourKeyNum (i + q * 5 - 4) False
           = Some (q * 12 - 10 + blackKeyNumbers ! nat i)"
proof -
  have "(i + q * 5) div 5 = q" "js_rem_int (i + q * 5) 5 = i"
    using assms by (simp_all add: js_rem_int_nonneg)
  then show ?thesis
    using assms by (simp add: calcKeyNumFromColourKeyNum_def at_index_def blackKeyNumbers_def)
qed

lemma colour_white:
  assumes "calcOctave keyNum = q" "calcOctaveKeyNum keyNum = whiteKeyNumbers ! nat i" "0 \<le> i" "i < 7"
  shows "calcIsWhiteKey keyNum" "calcColourKeyNum keyNum = i + q * 7 - 5"
proof -
  have i: "i = 0 \<or> i = 1 \<or> i = 2 \<or> i = 3 \<or> i = 4 \<or> i = 5 \<or> i = 6"
    using assms by arith
  from i show w: "calcIsWhiteKey keyNum"
    by (elim disjE) (simp_all add: calcIsWhiteKey_def assms(2) array_includes_def whiteKeyNumbers_def)
  from i have "indexOf whiteKeyNumbers (whiteKeyNumbers ! nat i) = i"
    by (elim disjE) (simp_all add: whiteKeyNumbers_def)
  then show "calcColourKeyNum keyNum = i + q * 7 - 5"
    using w by (simp add: calcColourKeyNum_def assms(1,2))
qed

lemma colour_black:
  assumes "calcOctave keyNum = q" "calcOctaveKeyNum keyNum = blackKeyNumbers ! nat i" "0 \<le> i" "i < 5"
  shows "\<not> calcIsWhiteKey keyNum" "calcColourKeyNum keyNum = i + q * 5 - 4"
proof -
  have i: "i = 0 \<or> i = 1 \<or> i = 2 \<or> i = 3 \<or> i = 4"
    using assms by arith
  from i show w: "\<not> calcIsWhiteKey keyNum"
    by (elim disjE)
      (simp_all add: calcIsWhiteKey_def assms(2) array_includes_def whiteKeyNumbers_def blackKeyNumbers_def)
  from i have "indexOf blackKeyNumbers (blackKeyNumbers ! nat i) = i"
    by (elim disjE) (simp_all add: blackKeyNumbers_def)
  then show "calcColourKeyNum keyNum = i + q * 5 - 4"
    using w by (simp add: calcColourKeyNum_def assms(1,2))
qed

lemma roundtrip_white:
  assumes "keyNum + 9 = 12 * q + (whiteKeyNumbers ! nat i - 1)" "0 \<le> q" "0 \<le> i" "i < 7"
  shows "calcKeyNumFromColourKeyNum (calcColourKeyNum keyNum) (calcIsWhiteKey keyNum) = Some keyNum"
proof -
  have i: "i = 0 \<or> i = 1 \<or> i = 2 \<or> i = 3 \<or> i = 4 \<or> i = 5 \<or> i = 6"
    using assms by arith
  then have b: "0 \<le> whiteKeyNumbers ! nat i - 1" "whiteKeyNumbers ! nat i - 1 < 12"
    by (auto simp: whiteKeyNumbers_def)
  have o: "calcOctave keyNum = q" "calcOctaveKeyNum keyNum = whiteKeyNumbers ! nat i"
    using octave_of_residue [OF assms(1,2) b] by simp_all
  have "calcIsWhiteKey keyNum" "calcColourKeyNum keyNum = i + q * 7 - 5"
    using colour_white [OF o assms(3,4)] by simp_all
  then show ?thesis
    using from_white [OF assms(2,3,4)] assms(1) by simp
qed

lemma roundtrip_black:
  assumes "keyNum + 9 = 12 * q + (blackKeyNumbers ! nat i - 1)" "0 \<le> q" "0 \<le> i" "i < 5"
  shows "calcKeyNumFromColourKeyNum (calcColourKeyNum keyNum) (calcIsWhiteKey keyNum) = Some keyNum"
proof -
  have i: "i = 0 \<or> i = 1 \<or> i = 2 \<or> i = 3 \<or> i = 4"
    using assms by arith
  then have b: "0 \<le> blackKeyNumbers ! nat i - 1" "blackKeyNumbers ! nat i - 1 < 12"
    by (auto simp: blackKeyNumbers_def)
  have o: "calcOctave keyNum = q" "calcOctaveKeyNum keyNum = blackKeyNumbers ! nat i"
    using octave_of_residue [OF assms(1,2) b] by simp_all
  have "\<not> calcIsWhiteKey keyNum" "calcColourKeyNum keyNum = i + q * 5 - 4"
    using colour_black [OF o assms(3,4)] by simp_all
  then show ?thesis
    using from_black [OF assms(2,3,4)] assms(1) by simp
qed

lemma residue_colour:
  assumes "0 \<le> r" "r < (12::int)"
  shows "(\<exists>i. 0 \<le> i \<and> i < 7 \<and> r = whiteKeyNumbers ! nat i - 1) \<or>
         (\<exists>i. 0 \<le> i \<and> i < 5 \<and> r = blackKeyNumbers ! nat i - 1)"
proof -
  have r: "r = 0 \<or> r = 1 \<or> r = 2 \<or> r = 3 \<or> r = 4 \<or> r = 5 \<or> r = 6 \<or> r = 7 \<or> r = 8
            \<or> r = 9 \<or> r = 10 \<or> r = 11"
    using assms by arith
  have w: "\<And>i. 0 \<le> i \<Longrightarrow> i < 7 \<Longrightarrow> r = whiteKeyNumbers ! nat i - 1 \<Longrightarrow> ?thesis" by blast
  have b: "\<And>i. 0 \<le> i \<Longrightarrow> i < 5 \<Longrightarrow> r = blackKeyNumbers ! nat i - 1 \<Longrightarrow> ?thesis" by blast
  from r show ?thesis
  proof (elim disjE)
    assume "r = 0" then show ?thesis by (intro w [of 0]) (simp_all add: whiteKeyNumbers_def)
  next
    assume "r = 1" then show ?thesis by (intro b [of 0]) (simp_all add: blackKeyNumbers_def)
  next
    assume "r = 2" then show ?thesis by (intro w [of 1]) (simp_all add: whiteKeyNumbers_def)
  next
    assume "r = 3" then show ?thesis by (intro b [of 1]) (simp_all add: blackKeyNumbers_def)
  next
    assume "r = 4" then show ?thesis by (intro w [of 2]) (simp_all add: whiteKeyNumbers_def)
  next
    assume "r = 5" then show ?thesis by (intro w [of 3]) (simp_all add: whiteKeyNumbers_def)
  next
    assume "r = 6" then show ?thesis by (intro b [of 2]) (simp_all add: blackKeyNumbers_def)
  next
    assume "r = 7" then show ?thesis by (intro w [of 4]) (simp_all add: whiteKeyNumbers_def)
  next
    assume "r = 8" then show ?thesis by (intro b [of 3]) (simp_all add: blackKeyNumbers_def)
  next
    assume "r = 9" then show ?thesis by (intro w [of 5]) (simp_all add: whiteKeyNumbers_def)
  next
    assume "r = 10" then show ?thesis by (intro b [of 4]) (simp_all add: blackKeyNumbers_def)
  next
    assume "r = 11" then show ?thesis by (intro w [of 6]) (simp_all add: whiteKeyNumbers_def)
  qed
qed

text \<open>
  Claim C10. For every key number \<open>keyNum \<ge> 0\<close>, mapping the key to its colour and its
  colour-relative index and back gives the key number again:
  \<open>calcKeyNumFromColourKeyNum (calcColourKeyNum keyNum) (calcIsWhiteKey keyNum)\<close> is
  \<open>keyNum\<close> (in particular it is a number, not \<^verbatim>\<open>NaN\<close>).
\<close>

theorem key_numbering_roundtrip:
  assumes "0 \<le> keyNum"
  shows "calcKeyNumFromColourKeyNum (calcColourKeyNum keyNum) (calcIsWhiteKey keyNum)
           = Some keyNum"
proof -
  define q where "q = (keyNum + 9) div 12"
  define r where "r = (keyNum + 9) mod 12"
  have k: "keyNum + 9 = 12 * q + r"
    by (simp add: q_def r_def)
  have q: "0 \<le> q" and r: "0 \<le> r" "r < 12"
    using assms by (simp_all add: q_def r_def pos_imp_zdiv_nonneg_iff)
  from residue_colour [OF r] show ?thesis
  proof (elim disjE exE conjE)
    fix i assume "0 \<le> i" "i < 7" "r = whiteKeyNumbers ! nat i - 1"
    then show ?thesis using roundtrip_white [of keyNum q i] k q by simp
  next
    fix i assume "0 \<le> i" "i < 5" "r = blackKeyNumbers ! nat i - 1"
    then show ?thesis using roundtrip_black [of keyNum q i] k q by simp
  qed
qed

theorem key_numbering_roundtrip_witness:
  "(0::int) \<le> 40 \<and>
   calcColourKeyNum 40 = 16 \<and> calcIsWhiteKey 40 = False \<and>
   calcKeyNumFromColourKeyNum 16 False = Some 40"
proof -
  have h: "(0::int) \<le> 40" by simp
  have c: "calcColourKeyNum 40 = 16" "calcIsWhiteKey 40 = False"
    by (simp_all add: calcColourKeyNum_def calcIsWhiteKey_def calcOctave_def
        calcOctaveKeyNum_def array_includes_def whiteKeyNumbers_def blackKeyNumbers_def
        js_rem_int_def)
  show ?thesis
    using key_numbering_roundtrip [OF h] c by simp
qed

section \<open>Fail-fast construction\<close>

text \<open>
  Claim C9. The constructor throws a \<^verbatim>\<open>RangeError\<close> if and only if the \<open>octaves\<close>
  argument is less than 1 or greater than 7; for \<open>octaves\<close> in \<open>[1, 7]\<close> the guard passes,
  and the guard is the only configuration failure of the constructor.
\<close>

theorem constructor_fails_fast:
  "(Piano_constructor octaves tpb now = Inl RangeError \<longleftrightarrow> octaves < 1 \<or> octaves > 7) \<and>
   ((\<exists>s. Piano_constructor octaves tpb now = Inr s) \<longleftrightarrow> 1 \<le> octaves \<and> octaves \<le> 7)"
  by (auto simp: Piano_constructor_def)

theorem constructor_fails_fast_witness:
  "Piano_constructor 0 4 0 = Inl RangeError \<and> Piano_constructor 8 4 0 = Inl RangeError \<and>
   (\<exists>s. Piano_constructor 1 4 0 = Inr s) \<and> (\<exists>s. Piano_constructor 7 4 0 = Inr s)"
  using constructor_fails_fast [of 0 4 0] constructor_fails_fast [of 8 4 0]
    constructor_fails_fast [of 1 4 0] constructor_fails_fast [of 7 4 0]
  by simp


section \<open>Double arithmetic\<close>

text \<open>\<open>fl x\<close> is a double (\<open>is_double_fl\<close>) and no double is nearer to \<open>x\<close>
  (\<open>fl_nearest\<close>); hence it leaves a double as it is and is monotone. \<open>fl_eval\<close>
  computes it for an \<open>x\<close> whose binary exponent is known.\<close>

lemma pow2_pos [simp]: "0 < pow2 e"
  by (simp add: pow2_def)

lemma pow2_add: "pow2 (a + b) = pow2 a * pow2 b"
  by (simp add: pow2_def powr_add)

lemma pow2_nat: "pow2 (int n) = 2 ^ n"
  by (simp add: pow2_def powr_realpow)

lemma pow2_eval: "pow2 e = (if 0 \<le> e then 2 ^ nat e else inverse (2 ^ nat (- e)))"
  by (simp add: pow2_def powr_real_of_int)

lemma pow2_less_iff: "pow2 a < pow2 b \<longleftrightarrow> a < b"
  by (simp add: pow2_def)

lemma pow2_le_iff: "pow2 a \<le> pow2 b \<longleftrightarrow> a \<le> b"
  by (simp add: pow2_def)

lemma pow2_diff: "a \<le> b \<Longrightarrow> pow2 b = 2 ^ nat (b - a) * pow2 a"
  using pow2_add [of "b - a" a] pow2_nat [of "nat (b - a)"] by simp

lemma rne_split:
  obtains "rne y = \<lfloor>y\<rfloor>" "y - of_int \<lfloor>y\<rfloor> \<le> 1/2"
  | "rne y = \<lfloor>y\<rfloor> + 1" "1/2 \<le> y - of_int \<lfloor>y\<rfloor>"
  by (cases "y - of_int \<lfloor>y\<rfloor> < 1/2"; cases "1/2 < y - of_int \<lfloor>y\<rfloor>";
      cases "even \<lfloor>y\<rfloor>") (simp_all add: rne_def Let_def)

lemma rne_nearest: "\<bar>y - of_int (rne y)\<bar> \<le> \<bar>y - of_int k\<bar>"
proof -
  define n where "n = \<lfloor>y\<rfloor>"
  have b: "of_int n \<le> y" "y < of_int n + 1" unfolding n_def by linarith+
  have "k \<le> n \<or> n + 1 \<le> k" by linarith
  then have k: "(of_int k :: real) \<le> of_int n \<or> (of_int n :: real) + 1 \<le> of_int k"
    by (metis of_int_le_iff of_int_add of_int_1)
  show ?thesis
  proof (cases y rule: rne_split)
    case 1
    then have "rne y = n" "y - of_int n \<le> 1/2" by (simp_all add: n_def)
    then show ?thesis using b k by (simp add: abs_if) linarith
  next
    case 2
    then have "of_int (rne y) = (of_int n :: real) + 1" "1/2 \<le> y - of_int n" by (simp_all add: n_def)
    then show ?thesis using b k by (simp add: abs_if) linarith
  qed
qed

lemma rne_half: "\<bar>y - of_int (rne y)\<bar> \<le> 1/2"
proof -
  define n where "n = \<lfloor>y\<rfloor>"
  have b: "of_int n \<le> y" "y < of_int n + 1" unfolding n_def by linarith+
  show ?thesis
  proof (cases y rule: rne_split)
    case 1
    then have "rne y = n" "y - of_int n \<le> 1/2" by (simp_all add: n_def)
    then show ?thesis using b by (simp add: abs_if)
  next
    case 2
    then have "of_int (rne y) = (of_int n :: real) + 1" "1/2 \<le> y - of_int n" by (simp_all add: n_def)
    then show ?thesis using b by (simp add: abs_if)
  qed
qed

lemma expo_bounds:
  assumes "x \<noteq> 0"
  shows "pow2 (expo x) \<le> \<bar>x\<bar>" and "\<bar>x\<bar> < pow2 (expo x + 1)"
proof -
  have p: "0 < \<bar>x\<bar>" using assms by simp
  have "of_int (expo x) \<le> log 2 \<bar>x\<bar>" by (simp add: expo_def)
  then show "pow2 (expo x) \<le> \<bar>x\<bar>"
    using p by (simp add: pow2_def le_log_iff)
  have "log 2 \<bar>x\<bar> < of_int (expo x + 1)" unfolding expo_def by linarith
  then show "\<bar>x\<bar> < pow2 (expo x + 1)"
    unfolding pow2_def using p log_less_iff [of 2 "\<bar>x\<bar>" "of_int (expo x + 1)"] by simp
qed

lemma expo_unique:
  assumes "pow2 e \<le> \<bar>x\<bar>" "\<bar>x\<bar> < pow2 (e + 1)"
  shows "expo x = e"
proof -
  have p: "0 < \<bar>x\<bar>" using assms(1) pow2_pos [of e] by linarith
  have "of_int e \<le> log 2 \<bar>x\<bar>"
    using assms(1) p by (simp add: pow2_def le_log_iff)
  moreover have "log 2 \<bar>x\<bar> < of_int (e + 1)"
    using assms(2) p log_less_iff [of 2 "\<bar>x\<bar>" "of_int (e + 1)"] unfolding pow2_def by simp
  ultimately show ?thesis
    unfolding expo_def by linarith
qed

lemma quantum_pos [simp]: "0 < quantum x"
  by (simp add: quantum_def)

lemma quantum_nonzero [simp]: "quantum x \<noteq> 0"
  by (simp add: quantum_def pow2_def)

lemma quantum_nonneg [simp]: "0 \<le> quantum x"
  by (simp add: quantum_def pow2_def)

lemma quantum_bounds:
  assumes "x \<noteq> 0"
  shows "2 ^ 52 * quantum x \<le> \<bar>x\<bar>" and "\<bar>x\<bar> < 2 ^ 53 * quantum x"
proof -
  have a: "pow2 (expo x) = 2 ^ 52 * quantum x"
    using pow2_diff [of "expo x - 52" "expo x"] by (simp add: quantum_def)
  have b: "pow2 (expo x + 1) = 2 ^ 53 * quantum x"
    using pow2_diff [of "expo x - 52" "expo x + 1"] by (simp add: quantum_def)
  show "2 ^ 52 * quantum x \<le> \<bar>x\<bar>" using expo_bounds(1) [OF assms] a by simp
  show "\<bar>x\<bar> < 2 ^ 53 * quantum x" using expo_bounds(2) [OF assms] b by simp
qed

lemma quantum_unique:
  assumes "2 ^ 52 * pow2 e \<le> \<bar>x\<bar>" "\<bar>x\<bar> < 2 ^ 53 * pow2 e"
  shows "quantum x = pow2 e"
proof -
  have a: "pow2 (e + 52) = 2 ^ 52 * pow2 e"
    using pow2_diff [of e "e + 52"] by simp
  have b: "pow2 (e + 52 + 1) = 2 ^ 53 * pow2 e"
    using pow2_diff [of e "e + 53"] by (simp add: add.commute)
  have "expo x = e + 52"
    by (rule expo_unique) (use assms a b in simp_all)
  then show ?thesis by (simp add: quantum_def)
qed

lemma fl_eval:
  assumes "2 ^ 52 * pow2 e \<le> \<bar>x\<bar>" "\<bar>x\<bar> < 2 ^ 53 * pow2 e"
  shows "fl x = of_int (rne (x / pow2 e)) * pow2 e"
proof -
  have "0 < (2::real) ^ 52 * pow2 e" by simp
  then have "0 < \<bar>x\<bar>" using assms(1) by (rule less_le_trans)
  then have "x \<noteq> 0" by simp
  then show ?thesis by (simp add: fl_def quantum_unique [OF assms])
qed

lemma fl_error:
  "\<bar>x - fl x\<bar> \<le> quantum x / 2"
proof (cases "x = 0")
  case True
  then show ?thesis using quantum_pos [of 0] by (simp add: fl_def less_imp_le)
next
  case False
  let ?q = "quantum x"
  have "x - fl x = (x / ?q - of_int (rne (x / ?q))) * ?q"
    using False by (simp add: fl_def left_diff_distrib)
  then have "\<bar>x - fl x\<bar> = \<bar>x / ?q - of_int (rne (x / ?q))\<bar> * ?q"
    by (simp add: abs_mult abs_of_pos)
  also have "\<dots> \<le> (1/2) * ?q"
    by (intro mult_right_mono rne_half) simp
  finally show ?thesis by simp
qed

lemma is_double_multiple:
  assumes "is_double b" "2 ^ 52 * pow2 e \<le> \<bar>b\<bar>"
  shows "\<exists>n. b = of_int n * pow2 e"
proof -
  obtain m e' where m: "\<bar>m\<bar> < 2 ^ 53" and b: "b = of_int m * pow2 e'"
    using assms(1) by (auto simp: is_double_def)
  have "\<bar>b\<bar> = of_int \<bar>m\<bar> * pow2 e'"
    by (simp add: b abs_mult abs_of_pos)
  moreover have "(of_int \<bar>m\<bar> :: real) < 2 ^ 53"
    using m by (metis of_int_less_iff of_int_numeral of_int_power)
  ultimately have "\<bar>b\<bar> < 2 ^ 53 * pow2 e'"
    by (simp add: mult_strict_right_mono)
  then have "2 ^ 52 * pow2 e < 2 ^ 53 * pow2 e'"
    using assms(2) by linarith
  then have "pow2 e < 2 * pow2 e'" by simp
  also have "2 * pow2 e' = pow2 (e' + 1)"
    using pow2_diff [of e' "e' + 1"] by simp
  finally have "e \<le> e'" by (simp add: pow2_less_iff)
  then have "pow2 e' = 2 ^ nat (e' - e) * pow2 e" by (rule pow2_diff)
  then have "b = of_int (m * 2 ^ nat (e' - e)) * pow2 e"
    by (simp add: b)
  then show ?thesis by blast
qed

lemma is_double_int:
  assumes "\<bar>n\<bar> \<le> 2 ^ 53"
  shows "is_double (of_int n * pow2 e)"
proof (cases "\<bar>n\<bar> < 2 ^ 53")
  case True
  then show ?thesis by (auto simp: is_double_def)
next
  case False
  then have "n = 2 ^ 53 \<or> n = - (2 ^ 53)" using assms by linarith
  then have "of_int n * pow2 e = of_int (n div 2) * pow2 (e + 1) \<and> \<bar>n div 2\<bar> < 2 ^ 53"
    using pow2_diff [of e "e + 1"] by auto
  then show ?thesis unfolding is_double_def by metis
qed

lemma is_double_fl: "is_double (fl x)"
proof (cases "x = 0")
  case True
  have "is_double (of_int 0 * pow2 0)" by (rule is_double_int) simp
  then show ?thesis using True by (simp add: fl_def)
next
  case False
  let ?q = "quantum x"
  let ?y = "x / ?q"
  have "\<bar>?y\<bar> < 2 ^ 53"
    using quantum_bounds(2) [OF False] by (simp add: pos_divide_less_eq)
  moreover have "\<bar>?y - of_int (rne ?y)\<bar> \<le> 1/2" by (rule rne_half)
  ultimately have "\<bar>of_int (rne ?y) :: real\<bar> < 2 ^ 53 + 1" by linarith
  then have "\<bar>rne ?y\<bar> < 2 ^ 53 + 1"
    by (metis (mono_tags, opaque_lifting) of_int_abs of_int_less_iff of_int_add of_int_1 of_int_numeral of_int_power)
  then have "\<bar>rne ?y\<bar> \<le> 2 ^ 53" by linarith
  then have "is_double (of_int (rne ?y) * pow2 (expo x - 52))" by (rule is_double_int)
  then show ?thesis using False by (simp add: fl_def quantum_def)
qed


lemma fl_zero [simp]: "fl 0 = 0"
  by (simp add: fl_def)

lemma fl_nearest:
  assumes "is_double b"
  shows "\<bar>x - fl x\<bar> \<le> \<bar>x - b\<bar>"
proof (cases "x = 0")
  case True
  then show ?thesis by simp
next
  case False
  define q where "q = quantum x"
  have q: "0 < q" "q = pow2 (expo x - 52)" by (simp_all add: q_def quantum_def)
  have lo: "2 ^ 52 * q \<le> \<bar>x\<bar>" using quantum_bounds(1) [OF False] by (simp add: q_def)
  have e: "x - fl x = (x / q - of_int (rne (x / q))) * q"
    using False q(1) by (simp add: fl_def q_def left_diff_distrib)
  have multiple: "\<bar>x - fl x\<bar> \<le> \<bar>x - of_int k * q\<bar>" for k
  proof -
    have "x - of_int k * q = (x / q - of_int k) * q"
      using q(1) by (simp add: left_diff_distrib)
    then have "\<bar>x - of_int k * q\<bar> = \<bar>x / q - of_int k\<bar> * q"
      using q(1) by (simp add: abs_mult abs_of_pos)
    moreover have "\<bar>x - fl x\<bar> = \<bar>x / q - of_int (rne (x / q))\<bar> * q"
      using q(1) e by (simp add: abs_mult abs_of_pos)
    moreover have "\<bar>x / q - of_int (rne (x / q))\<bar> * q \<le> \<bar>x / q - of_int k\<bar> * q"
      using q(1) by (intro mult_right_mono rne_nearest) simp
    ultimately show ?thesis by simp
  qed
  show ?thesis
  proof (cases "2 ^ 52 * q \<le> \<bar>b\<bar>")
    case True
    then obtain n where "b = of_int n * q"
      using is_double_multiple [OF assms, of "expo x - 52"] q(2) by auto
    then show ?thesis using multiple [of n] by simp
  next
    case small: False
    show ?thesis
    proof (cases "0 < x")
      case True
      have "\<bar>x - fl x\<bar> \<le> \<bar>x - of_int (2 ^ 52) * q\<bar>" by (rule multiple)
      then show ?thesis using small lo True by (simp add: abs_if split: if_splits)
    next
      case neg: False
      have "\<bar>x - fl x\<bar> \<le> \<bar>x - of_int (- (2 ^ 52)) * q\<bar>" by (rule multiple)
      then show ?thesis using small lo neg False by (simp add: abs_if split: if_splits)
    qed
  qed
qed

lemma fl_exact: "is_double x \<Longrightarrow> fl x = x"
  using fl_nearest [of x x] by simp

lemma fl_mono:
  assumes "x \<le> y"
  shows "fl x \<le> fl y"
proof (rule ccontr)
  assume "\<not> fl x \<le> fl y"
  then have l: "fl y < fl x" by simp
  have 1: "\<bar>x - fl x\<bar> \<le> \<bar>x - fl y\<bar>" by (rule fl_nearest) (rule is_double_fl)
  have 2: "\<bar>y - fl y\<bar> \<le> \<bar>y - fl x\<bar>" by (rule fl_nearest) (rule is_double_fl)
  have "y \<le> x" using l 1 2 assms by (simp add: abs_if split: if_splits)
  then have "x = y" using assms by simp
  then show False using l by simp
qed

lemma fl_pos:
  assumes "0 < x"
  shows "0 < fl x"
proof -
  have x: "x \<noteq> 0" using assms by simp
  have d: "is_double (of_int (2 ^ 52) * pow2 (expo x - 52))" by (rule is_double_int) simp
  have "2 ^ 52 * quantum x \<le> x" using quantum_bounds(1) [OF x] assms by simp
  then have "fl (2 ^ 52 * quantum x) \<le> fl x" by (rule fl_mono)
  moreover have "fl (2 ^ 52 * quantum x) = 2 ^ 52 * quantum x"
    using fl_exact [OF d] by (simp add: quantum_def)
  moreover have "0 < 2 ^ 52 * quantum x" by simp
  ultimately show ?thesis by linarith
qed

lemma fl_nonpos: "x \<le> 0 \<Longrightarrow> fl x \<le> 0"
  using fl_mono [of x 0] by simp

lemma quantum_mono:
  assumes "x \<noteq> 0" "\<bar>x\<bar> \<le> \<bar>y\<bar>"
  shows "quantum x \<le> quantum y"
proof -
  have "log 2 \<bar>x\<bar> \<le> log 2 \<bar>y\<bar>" using assms by simp
  then have "expo x \<le> expo y" unfolding expo_def by (rule floor_mono)
  then show ?thesis by (simp add: quantum_def pow2_le_iff)
qed

lemma is_double_half:
  assumes "is_double x"
  shows "is_double (x / 2)"
proof -
  obtain m e where m: "\<bar>m\<bar> < 2 ^ 53" and x: "x = of_int m * pow2 e"
    using assms by (auto simp: is_double_def)
  have "pow2 e = 2 * pow2 (e - 1)" using pow2_diff [of "e - 1" e] by simp
  then have "x / 2 = of_int m * pow2 (e - 1)" by (simp add: x)
  then show ?thesis using m unfolding is_double_def by blast
qed

lemma is_double_uminus:
  assumes "is_double x"
  shows "is_double (- x)"
proof -
  obtain m e where m: "\<bar>m\<bar> < 2 ^ 53" and x: "x = of_int m * pow2 e"
    using assms by (auto simp: is_double_def)
  have "- x = of_int (- m) * pow2 e" "\<bar>- m\<bar> < 2 ^ 53" using m by (simp_all add: x)
  then show ?thesis unfolding is_double_def by blast
qed

section \<open>The tick grid\<close>

lemma js_rem_nonneg:
  assumes "0 < b" "0 \<le> a"
  shows "0 \<le> js_rem a b" and "js_rem a b < b"
proof -
  have q: "0 \<le> a / b" using assms by simp
  have t: "js_trunc (a / b) = \<lfloor>a / b\<rfloor>" using q by (simp add: js_trunc_def)
  have "of_int \<lfloor>a / b\<rfloor> \<le> a / b" by simp
  then have "b * of_int \<lfloor>a / b\<rfloor> \<le> b * (a / b)"
    using assms(1) by (intro mult_left_mono) simp_all
  then have "b * of_int \<lfloor>a / b\<rfloor> \<le> a"
    using assms(1) by simp
  then show "0 \<le> js_rem a b" by (simp add: js_rem_def t)
  have "a / b < of_int \<lfloor>a / b\<rfloor> + 1" by linarith
  then have "b * (a / b) < b * (of_int \<lfloor>a / b\<rfloor> + 1)"
    using assms(1) by (intro mult_strict_left_mono) simp_all
  then have "a < b * (of_int \<lfloor>a / b\<rfloor> + 1)"
    using assms(1) by simp
  then show "js_rem a b < b" by (simp add: js_rem_def t algebra_simps)
qed

lemma js_rem_neg:
  assumes "0 < b" "a < 0"
  shows "js_rem a b \<le> 0" and "- b < js_rem a b"
proof -
  have q: "a / b < 0" using assms by (simp add: divide_neg_pos)
  have t: "js_trunc (a / b) = \<lceil>a / b\<rceil>" using q by (simp add: js_trunc_def)
  have "a / b \<le> of_int \<lceil>a / b\<rceil>" by simp
  then have "b * (a / b) \<le> b * of_int \<lceil>a / b\<rceil>"
    using assms(1) by (intro mult_left_mono) simp_all
  then have "a \<le> b * of_int \<lceil>a / b\<rceil>"
    using assms(1) by simp
  then show "js_rem a b \<le> 0" by (simp add: js_rem_def t algebra_simps)
  have "of_int \<lceil>a / b\<rceil> - 1 < a / b" by linarith
  then have "b * (of_int \<lceil>a / b\<rceil> - 1) < b * (a / b)"
    using assms(1) by (intro mult_strict_left_mono) simp_all
  then have "b * (of_int \<lceil>a / b\<rceil> - 1) < a"
    using assms(1) by simp
  then show "- b < js_rem a b" by (simp add: js_rem_def t algebra_simps)
qed

text \<open>The result of \<open>roundToOffset\<close> is not below its argument \<open>t\<close>, for a double \<open>t\<close> and
  a tick interval \<open>i\<close>. When the remainder is not positive, \<open>t - remainder\<close> is not below
  \<open>t\<close>. Otherwise \<open>t - i < t - remainder\<close>, and the result can only be below \<open>t\<close> if
  \<open>t - remainder\<close> is rounded down past \<open>t - i\<close>. When \<open>t - remainder\<close> is positive, \<open>t\<close> and
  the result are then two multiples of its quantum at a distance below that quantum.
  When it is negative, \<open>t < i\<close>, and the sum \<open>t + i / 2\<close> would have to be rounded by more
  than the spacing of the doubles below \<open>i\<close> allows.\<close>

lemma round_up_ge:
  assumes i: "0 < i" "is_double i" and t: "is_double t"
  shows "t \<le> fl (fl (t - js_rem (fl (t + fl (i / 2))) i) + i)"
proof (rule ccontr)
  assume neg: "\<not> ?thesis"
  define h where "h = i / 2"
  have hd: "is_double h" unfolding h_def using i(2) by (rule is_double_half)
  have fh: "fl (i / 2) = h" using fl_exact [OF hd] by (simp add: h_def)
  define u where "u = fl (t + h)"
  define rem where "rem = js_rem u i"
  define x where "x = t - rem"
  define a where "a = fl x"
  define r where "r = fl (a + i)"
  have rt: "r < t" using neg by (simp add: r_def a_def x_def rem_def u_def fh)
  have ai: "a + i < t"
  proof (rule ccontr)
    assume "\<not> a + i < t"
    then have "t \<le> a + i" by simp
    then have "fl t \<le> fl (a + i)" by (rule fl_mono)
    then show False using rt fl_exact [OF t] by (simp add: r_def)
  qed
  have rem_pos: "0 < rem"
  proof (rule ccontr)
    assume "\<not> 0 < rem"
    then have "t \<le> x" by (simp add: x_def)
    then have "fl t \<le> fl x" by (rule fl_mono)
    then have "t \<le> a" using fl_exact [OF t] by (simp add: a_def)
    then show False using ai i(1) by linarith
  qed
  have u_pos: "0 < u"
  proof (rule ccontr)
    assume "\<not> 0 < u"
    then consider "u = 0" | "u < 0" by linarith
    then have "rem \<le> 0"
    proof cases
      case 1
      then show ?thesis by (simp add: rem_def js_rem_def js_trunc_def)
    next
      case 2
      then show ?thesis using js_rem_neg(1) [OF i(1)] by (simp add: rem_def)
    qed
    then show False using rem_pos by simp
  qed
  have rem_lt: "rem < i"
    using js_rem_nonneg(2) [OF i(1), of u] u_pos by (simp add: rem_def)
  have z_pos: "0 < t + h"
  proof (rule ccontr)
    assume "\<not> 0 < t + h"
    then have "fl (t + h) \<le> 0" by (intro fl_nonpos) simp
    then show False using u_pos by (simp add: u_def)
  qed
  have a_lt: "a < t - i" using ai by simp
  have x_gt: "t - i < x" using rem_lt by (simp add: x_def)
  have x_ne: "x \<noteq> 0"
  proof
    assume "x = 0"
    then have "a = x" by (simp add: a_def)
    then show False using a_lt x_gt by simp
  qed
  show False
  proof (cases "0 < x")
    case True
    define q where "q = quantum x"
    have q: "0 < q" "q = pow2 (expo x - 52)" by (simp_all add: q_def quantum_def)
    have lo: "2 ^ 52 * q \<le> x" using quantum_bounds(1) [OF x_ne] True by (simp add: q_def)
    have "\<bar>x - a\<bar> \<le> q / 2" unfolding a_def q_def by (rule fl_error)
    then have d: "t - i - a < q / 2" using a_lt x_gt by (simp add: abs_if split: if_splits)
    have "\<bar>(a + i) - r\<bar> \<le> \<bar>(a + i) - t\<bar>" unfolding r_def using t by (rule fl_nearest)
    then have r_lo: "t - q < r" using d ai rt by (simp add: abs_if split: if_splits)
    have tx: "x < t" using rem_pos by (simp add: x_def)
    then have "2 ^ 52 * pow2 (expo x - 52) \<le> \<bar>t\<bar>" using lo q(2) by simp
    then obtain n where n: "t = of_int n * q"
      using is_double_multiple [OF t, of "expo x - 52"] q(2) by auto
    have "of_int (2 ^ 52) * q < of_int n * q" using lo tx n by simp
    then have "(of_int (2 ^ 52) :: real) < of_int n" using q(1) by (simp only: mult_less_cancel_right_pos)
    then have "2 ^ 52 < n" by (simp only: of_int_less_iff)
    then have "2 ^ 52 + 1 \<le> n" by simp
    then have "(of_int (2 ^ 52 + 1) :: real) \<le> of_int n" by (simp only: of_int_le_iff)
    then have "of_int (2 ^ 52 + 1) * q \<le> of_int n * q" using q(1) by (simp only: mult_le_cancel_right_pos)
    then have t_lo: "2 ^ 52 * q + q \<le> t" by (simp add: n algebra_simps)
    then have "2 ^ 52 * q < r" using r_lo by linarith
    then have "2 ^ 52 * pow2 (expo x - 52) \<le> \<bar>r\<bar>" using q(2) by simp
    moreover have "is_double r" unfolding r_def by (rule is_double_fl)
    ultimately obtain n' where n': "r = of_int n' * q"
      using is_double_multiple [of r "expo x - 52"] q(2) by auto
    have "t - r = of_int (n - n') * q" by (simp add: n n' algebra_simps)
    moreover have "0 < t - r" "t - r < 1 * q" using rt r_lo by simp_all
    ultimately have "0 * q < of_int (n - n') * q" "of_int (n - n') * q < 1 * q" by simp_all
    then have "(0::real) < of_int (n - n')" "(of_int (n - n') :: real) < 1"
      using q(1) by (simp_all only: mult_less_cancel_right_pos)
    then have "0 < n - n'" "n - n' < 1" by (simp_all only: of_int_0_less_iff of_int_less_1_iff)
    then show False by simp
  next
    case False
    then have x_neg: "x < 0" using x_ne by simp
    then have t_rem: "t < rem" by (simp add: x_def)
    then have t_i: "t < i" using rem_lt by simp
    show False
    proof (cases "u < i")
      case True
      have "0 \<le> u / i" "u / i < 1" using True u_pos i(1) by simp_all
      then have "\<lfloor>u / i\<rfloor> = 0" by linarith
      then have "js_trunc (u / i) = 0" using \<open>0 \<le> u / i\<close> by (simp add: js_trunc_def)
      then have rem_u: "rem = u" by (simp add: rem_def js_rem_def)
      have "\<bar>x - a\<bar> \<le> \<bar>x - (- h)\<bar>" unfolding a_def using hd by (intro fl_nearest is_double_uminus)
      moreover have "x - (- h) = t + h - u" by (simp add: x_def rem_u)
      moreover have "i - u < x - a" using a_lt by (simp add: x_def rem_u)
      ultimately have A: "i - u < \<bar>t + h - u\<bar>" by (simp add: abs_if split: if_splits)
      have z_i: "t + h < i"
      proof (rule ccontr)
        assume "\<not> t + h < i"
        then have "fl i \<le> fl (t + h)" by (intro fl_mono) simp
        then show False using True fl_exact [OF i(2)] by (simp add: u_def)
      qed
      have "\<bar>t + h - u\<bar> \<le> quantum (t + h) / 2" unfolding u_def by (rule fl_error)
      moreover have "quantum (t + h) \<le> quantum i"
        using z_pos z_i by (intro quantum_mono) simp_all
      ultimately have B: "i - u < quantum i / 2" using A by linarith
      have ine: "i \<noteq> 0" using i(1) by simp
      have ilo: "2 ^ 52 * quantum i \<le> i" using quantum_bounds(1) [OF ine] i(1) by simp
      have half: "quantum i = 2 * pow2 (expo i - 53)"
        using pow2_diff [of "expo i - 53" "expo i - 52"] by (simp add: quantum_def)
      show False
      proof (cases "u < h")
        case True
        then have "h < i - u" by (simp add: h_def)
        moreover have "4503599627370496 * quantum i \<le> i" using ilo by simp
        then have "quantum i / 2 \<le> h"
          unfolding h_def using quantum_pos [of i] by linarith
        ultimately show False using B by linarith
      next
        case False
        then have "2 ^ 52 * pow2 (expo i - 53) \<le> \<bar>u\<bar>" using ilo half by (simp add: h_def)
        moreover have "is_double u" unfolding u_def by (rule is_double_fl)
        ultimately obtain n where n: "u = of_int n * pow2 (expo i - 53)"
          using is_double_multiple [of u "expo i - 53"] by auto
        have "2 ^ 52 * pow2 (expo i - 53) \<le> \<bar>i\<bar>" using ilo half quantum_pos [of i] by simp
        then obtain m where m: "i = of_int m * pow2 (expo i - 53)"
          using is_double_multiple [OF i(2), of "expo i - 53"] by auto
        define p where "p = pow2 (expo i - 53)"
        have p: "0 < p" by (simp add: p_def)
        have "i - u = of_int (m - n) * p" using m n by (simp add: p_def algebra_simps)
        moreover have "0 < i - u" using True by simp
        ultimately have "0 * p < of_int (m - n) * p" by simp
        then have "(0::real) < of_int (m - n)" using p by (simp only: mult_less_cancel_right_pos)
        then have "1 \<le> m - n" by simp
        then have "(of_int 1 :: real) \<le> of_int (m - n)" by (simp only: of_int_le_iff)
        then have "of_int 1 * p \<le> of_int (m - n) * p" using p by (simp only: mult_le_cancel_right_pos)
        then have "p \<le> i - u" using \<open>i - u = of_int (m - n) * p\<close> by simp
        then show False using B half by (simp add: p_def)
      qed
    next
      case False
      then have ui: "i \<le> u" by simp
      then have "1 \<le> u / i" using i(1) by simp
      then have "1 \<le> \<lfloor>u / i\<rfloor>" by linarith
      then have k: "(1::real) \<le> of_int (js_trunc (u / i))"
        using \<open>1 \<le> u / i\<close> by (simp add: js_trunc_def)
      have "i * 1 \<le> i * of_int (js_trunc (u / i))"
        using i(1) k by (intro mult_left_mono) simp_all
      then have "rem \<le> u - i" by (simp add: rem_def js_rem_def)
      then have u_gt: "t + i < u" using t_rem by linarith
      have t0: "0 \<le> t"
      proof (rule ccontr)
        assume "\<not> 0 \<le> t"
        then have "fl (t + h) \<le> fl h" by (intro fl_mono) simp
        then have "u \<le> h" using fl_exact [OF hd] by (simp add: u_def)
        then show False using ui i(1) by (simp add: h_def)
      qed
      have "\<bar>t + h - u\<bar> \<le> \<bar>t + h - i\<bar>" unfolding u_def using i(2) by (rule fl_nearest)
      then show False using u_gt t0 t_i by (simp add: h_def abs_if split: if_splits)
    qed
  qed
qed

lemma getInterval_pos:
  assumes "0 < audio_bpm s" "0 < ticksPerBeat s"
  shows "0 < getInterval s"
proof -
  have "0 < fl (1 / ticksPerBeat s)" using assms(2) by (intro fl_pos) simp
  then have "0 < fl (fl (1 / ticksPerBeat s) / audio_bpm s)" using assms(1) by (intro fl_pos) simp
  then have "0 < fl (fl (fl (1 / ticksPerBeat s) / audio_bpm s) * 60)" by (intro fl_pos) simp
  then show ?thesis by (simp add: getInterval_def beatsToSeconds_def js_div_def js_mul_def)
qed

lemma is_double_getInterval: "is_double (getInterval s)"
  by (simp add: getInterval_def beatsToSeconds_def js_mul_def is_double_fl)

lemma roundToOffset_eq:
  "roundToOffset s t =
     fl (fl (t - js_rem (fl (t + fl (getInterval s / 2))) (getInterval s)) + getInterval s)"
  by (simp add: roundToOffset_def getInterval_def Let_def js_add_def js_sub_def js_div_def)

lemma roundToOffset_ge:
  assumes "0 < audio_bpm s" "0 < ticksPerBeat s" "is_double t"
  shows "t \<le> roundToOffset s t"
  unfolding roundToOffset_eq
  using getInterval_pos [OF assms(1,2)] is_double_getInterval assms(3) by (rule round_up_ge)

lemma is_double_roundToOffset: "is_double (roundToOffset s t)"
  by (simp add: roundToOffset_eq is_double_fl)

text \<open>The values of the timebase at 80 beats per minute and four ticks per beat.\<close>

lemma timebase_80:
  assumes "audio_bpm s = 80" "ticksPerBeat s = 4"
  shows "getInterval s = 3/16" and "roundToOffset s 7 = 225/32"
    and "roundToOffset s (-2) = - 57/32" and "replaySeconds s = 3"
    and "beatsToSeconds s bufferBeats = 9/2"
    and "js_add (225/32) 3 = 321/32" and "js_sub 12 8 = 4" and "js_sub 10 3 = 7"
    and "js_sub 2 8 = - 6"
proof -
  have v1: "fl (1/4) = 1/4"
    using fl_eval [of "-54" "1/4"] by (simp add: pow2_eval rne_def Let_def)
  have v2: "fl (1/320) = 3602879701896397/1152921504606846976"
    using fl_eval [of "-61" "1/320"] by (simp add: pow2_eval rne_def Let_def)
  have v3: "fl (54043195528445955/288230376151711744) = 3/16"
    using fl_eval [of "-55" "54043195528445955/288230376151711744"] by (simp add: pow2_eval rne_def Let_def)
  have v4: "fl (3/32) = 3/32"
    using fl_eval [of "-56" "3/32"] by (simp add: pow2_eval rne_def Let_def)
  have v5: "fl (227/32) = 227/32"
    using fl_eval [of "-50" "227/32"] by (simp add: pow2_eval rne_def Let_def)
  have v6: "fl (219/32) = 219/32"
    using fl_eval [of "-50" "219/32"] by (simp add: pow2_eval rne_def Let_def)
  have v7: "fl (225/32) = 225/32"
    using fl_eval [of "-50" "225/32"] by (simp add: pow2_eval rne_def Let_def)
  have v8: "fl (- (61/32)) = - (61/32)"
    using fl_eval [of "-52" "- (61/32)"] by (simp add: pow2_eval rne_def Let_def)
  have v9: "fl (- (63/32)) = - (63/32)"
    using fl_eval [of "-52" "- (63/32)"] by (simp add: pow2_eval rne_def Let_def)
  have v10: "fl (- (57/32)) = - (57/32)"
    using fl_eval [of "-52" "- (57/32)"] by (simp add: pow2_eval rne_def Let_def)
  have v11: "fl 12 = 12"
    using fl_eval [of "-49" 12] by (simp add: pow2_eval rne_def Let_def)
  have v12: "fl 960 = 960"
    using fl_eval [of "-43" 960] by (simp add: pow2_eval rne_def Let_def)
  have v13: "fl 16 = 16"
    using fl_eval [of "-48" 16] by (simp add: pow2_eval rne_def Let_def)
  have v14: "fl 4 = 4"
    using fl_eval [of "-50" 4] by (simp add: pow2_eval rne_def Let_def)
  have v15: "fl (1/20) = 3602879701896397/72057594037927936"
    using fl_eval [of "-57" "1/20"] by (simp add: pow2_eval rne_def Let_def)
  have v16: "fl (54043195528445955/18014398509481984) = 3"
    using fl_eval [of "-51" "54043195528445955/18014398509481984"] by (simp add: pow2_eval rne_def Let_def)
  have v17: "fl (3/40) = 5404319552844595/72057594037927936"
    using fl_eval [of "-56" "3/40"] by (simp add: pow2_eval rne_def Let_def)
  have v18: "fl (81064793292668925/18014398509481984) = 9/2"
    using fl_eval [of "-50" "81064793292668925/18014398509481984"] by (simp add: pow2_eval rne_def Let_def)
  have v19: "fl (321/32) = 321/32"
    using fl_eval [of "-49" "321/32"] by (simp add: pow2_eval rne_def Let_def)
  have v20: "fl 7 = 7"
    using fl_eval [of "-50" 7] by (simp add: pow2_eval rne_def Let_def)
  have v21: "fl (- 6) = - 6"
    using fl_eval [of "-50" "- 6"] by (simp add: pow2_eval rne_def Let_def)
  show i: "getInterval s = 3/16"
    by (simp add: getInterval_def beatsToSeconds_def js_div_def js_mul_def assms v1 v2 v3)
  have m: "js_rem (227/32) (3/16) = 5/32" "js_rem (- (61/32)) (3/16) = - (1/32)"
    by (simp_all add: js_rem_def js_trunc_def)
  show "roundToOffset s 7 = 225/32"
    by (simp add: roundToOffset_eq i v4 v5 m v6 v7)
  show "roundToOffset s (-2) = - 57/32"
    by (simp add: roundToOffset_eq i v4 v8 m v9 v10)
  show "replaySeconds s = 3"
    by (simp add: replaySeconds_def beatsToSeconds_def js_div_def js_mul_def assms
        v11 v12 v13 v14 v15 v16)
  show "beatsToSeconds s bufferBeats = 9/2"
    by (simp add: beatsToSeconds_def bufferBeats_def js_div_def js_mul_def assms v17 v18)
  show "js_add (225/32) 3 = 321/32" by (simp add: js_add_def v19)
  show "js_sub 12 8 = 4" by (simp add: js_sub_def v14)
  show "js_sub 10 3 = 7" by (simp add: js_sub_def v20)
  show "js_sub 2 8 = - 6" by (simp add: js_sub_def v21)
qed


text \<open>The values of the timebase at 70 beats per minute and four ticks per beat. The tick
  interval is the double next to \<open>3/14\<close>; \<open>21/4\<close> is a time that \<open>roundToOffset\<close> leaves
  as it is.\<close>

lemma timebase_70:
  assumes "audio_bpm s = 70" "ticksPerBeat s = 4"
  shows "getInterval s = 7720456504063707/36028797018963968" and "replaySeconds s = 3"
    and "roundToOffset s (21/4) = 21/4"
    and "js_sub 12 8 = 4" and "js_sub (33/4) 3 = 21/4" and "js_add (21/4) 3 = 33/4"
proof -
  have c1: "fl 12 = 12"
    using fl_eval [of "-49" 12] by (simp add: pow2_eval rne_def Let_def)
  have c2: "fl 840 = 840"
    using fl_eval [of "-43" 840] by (simp add: pow2_eval rne_def Let_def)
  have c3: "fl 14 = 14"
    using fl_eval [of "-49" 14] by (simp add: pow2_eval rne_def Let_def)
  have c4: "fl (7/2) = 7/2"
    using fl_eval [of "-51" "7/2"] by (simp add: pow2_eval rne_def Let_def)
  have c5: "fl (1/20) = 3602879701896397/72057594037927936"
    using fl_eval [of "-57" "1/20"] by (simp add: pow2_eval rne_def Let_def)
  have c6: "fl (54043195528445955/18014398509481984) = 3"
    using fl_eval [of "-51" "54043195528445955/18014398509481984"] by (simp add: pow2_eval rne_def Let_def)
  have c7: "fl 4 = 4"
    using fl_eval [of "-50" 4] by (simp add: pow2_eval rne_def Let_def)
  have c8: "fl (21/4) = 21/4"
    using fl_eval [of "-50" "21/4"] by (simp add: pow2_eval rne_def Let_def)
  have c9: "fl (1/4) = 1/4"
    using fl_eval [of "-54" "1/4"] by (simp add: pow2_eval rne_def Let_def)
  have c10: "fl (1/280) = 8235153604334621/2305843009213693952"
    using fl_eval [of "-61" "1/280"] by (simp add: pow2_eval rne_def Let_def)
  have c11: "fl (123527304065019315/576460752303423488) = 7720456504063707/36028797018963968"
    using fl_eval [of "-55" "123527304065019315/576460752303423488"] by (simp add: pow2_eval rne_def Let_def)
  have c12: "fl (7720456504063707/72057594037927936) = 7720456504063707/72057594037927936"
    using fl_eval [of "-56" "7720456504063707/72057594037927936"] by (simp add: pow2_eval rne_def Let_def)
  have c13: "fl (386022825203185371/72057594037927936) = 6031606643799771/1125899906842624"
    using fl_eval [of "-50" "386022825203185371/72057594037927936"] by (simp add: pow2_eval rne_def Let_def)
  have c14: "fl (22678840980687141/4503599627370496) = 5669710245171785/1125899906842624"
    using fl_eval [of "-50" "22678840980687141/4503599627370496"] by (simp add: pow2_eval rne_def Let_def)
  have c15: "fl (189151184349560827/36028797018963968) = 21/4"
    using fl_eval [of "-50" "189151184349560827/36028797018963968"] by (simp add: pow2_eval rne_def Let_def)
  have c16: "fl (33/4) = 33/4"
    using fl_eval [of "-49" "33/4"] by (simp add: pow2_eval rne_def Let_def)
  show "replaySeconds s = 3"
    by (simp add: replaySeconds_def beatsToSeconds_def js_div_def js_mul_def assms
        c1 c2 c3 c4 c5 c6)
  show i: "getInterval s = 7720456504063707/36028797018963968"
    by (simp add: getInterval_def beatsToSeconds_def js_div_def js_mul_def assms c9 c10 c11)
  have m: "js_rem (6031606643799771/1125899906842624) (7720456504063707/36028797018963968)
      = 965057063007963/4503599627370496"
    by (simp add: js_rem_def js_trunc_def)
  show "roundToOffset s (21/4) = 21/4"
    by (simp add: roundToOffset_eq i c12 c13 m c14 c15)
  show "js_sub 12 8 = 4" "js_sub (33/4) 3 = 21/4" "js_add (21/4) 3 = 33/4"
    by (simp_all add: js_sub_def js_add_def c7 c8 c16)
qed


text \<open>
  Claim C2. For every time \<open>t\<close> and every tick interval \<open>> 0\<close>, \<open>roundToOffset t\<close> lies in
  \<open>(t, t + tickInterval]\<close> and is congruent to \<open>tickInterval / 2\<close> modulo the tick interval.
  For \<open>t < - tickInterval / 2\<close> the remainder \<^verbatim>\<open>%\<close> is negative and the result is more than
  one tick interval above \<open>t\<close>: at 80 beats per minute and four ticks per beat the tick
  interval is \<open>3/16\<close> and \<open>roundToOffset (-2)\<close> is \<open>-57/32\<close>, above \<open>-2 + 3/16\<close>. \<open>rewind\<close>
  passes such times.
\<close>

theorem roundToOffset_negative_time:
  "roundToOffset (initial_piano 3 4 0) (-2) = - 57/32 \<and>
   getInterval (initial_piano 3 4 0) = 3/16 \<and>
   \<not> roundToOffset (initial_piano 3 4 0) (-2) \<le> -2 + getInterval (initial_piano 3 4 0)"
proof -
  have b: "audio_bpm (initial_piano 3 4 0) = 80" "ticksPerBeat (initial_piano 3 4 0) = 4"
    by (simp_all add: initial_piano_def defaultBPM_def)
  show ?thesis
    by (simp add: timebase_80(1,3) [OF b])
qed

section \<open>State lemmas\<close>

lemma and_then_Returned [simp]: "and_then (Returned s) f = f s"
  by (simp add: and_then_def)

lemma and_then_Threw [simp]: "and_then (Threw e s) f = Threw e s"
  by (simp add: and_then_def)

lemma new_Note_fields [simp]:
  "fst (new_Note n s) = nextRef s"
  "heap (snd (new_Note n s)) = (heap s)(nextRef s := n)"
  "nextRef (snd (new_Note n s)) = Suc (nextRef s)"
  "activeNotes (snd (new_Note n s)) = activeNotes s"
  "noteQueue (snd (new_Note n s)) = noteQueue s"
  "noteBuffer (snd (new_Note n s)) = noteBuffer s"
  "transportEvents (snd (new_Note n s)) = transportEvents s"
  "nextScheduleId (snd (new_Note n s)) = nextScheduleId s"
  "currHistory (snd (new_Note n s)) = currHistory s"
  "transportSeconds (snd (new_Note n s)) = transportSeconds s"
  "callModelEnd (snd (new_Note n s)) = callModelEnd s"
  "audio_bpm (snd (new_Note n s)) = audio_bpm s"
  "ticksPerBeat (snd (new_Note n s)) = ticksPerBeat s"
  "modelStartTime (snd (new_Note n s)) = modelStartTime s"
  by (simp_all add: new_Note_def)

lemma scheduleNote_fields [simp]:
  "heap (scheduleNote n s) = (heap s)(n := (heap s n)\<lparr>scheduleId := Some (nextScheduleId s)\<rparr>)"
  "nextRef (scheduleNote n s) = nextRef s"
  "activeNotes (scheduleNote n s) = activeNotes s"
  "noteQueue (scheduleNote n s) = noteQueue s @ [n]"
  "noteBuffer (scheduleNote n s) = noteBuffer s"
  "transportEvents (scheduleNote n s) = transportEvents s @ [(nextScheduleId s, n)]"
  "nextScheduleId (scheduleNote n s) = Suc (nextScheduleId s)"
  "currHistory (scheduleNote n s) = currHistory s"
  "transportSeconds (scheduleNote n s) = transportSeconds s"
  "callModelEnd (scheduleNote n s) = callModelEnd s"
  "audio_bpm (scheduleNote n s) = audio_bpm s"
  "ticksPerBeat (scheduleNote n s) = ticksPerBeat s"
  "modelStartTime (scheduleNote n s) = modelStartTime s"
  by (simp_all add: scheduleNote_def)

lemma replay_notes_clock [simp]:
  "transportSeconds (replay_notes ns s) = transportSeconds s"
  "callModelEnd (replay_notes ns s) = callModelEnd s"
  "audio_bpm (replay_notes ns s) = audio_bpm s"
  "ticksPerBeat (replay_notes ns s) = ticksPerBeat s"
  by (induction ns arbitrary: s) (simp_all add: split_def Let_def)

lemma stopModel_fields [simp]:
  "heap (stopModel s) = heap s"
  "nextRef (stopModel s) = nextRef s"
  "nextHid (stopModel s) = nextHid s"
  "activeNotes (stopModel s) = activeNotes s"
  "noteQueue (stopModel s) = []"
  "noteBuffer (stopModel s) = []"
  "modelStartTime (stopModel s) = None"
  "currHistory (stopModel s) = currHistory s"
  "transportSeconds (stopModel s) = transportSeconds s"
  "callModelEnd (stopModel s) = callModelEnd s"
  "audio_bpm (stopModel s) = audio_bpm s"
  "ticksPerBeat (stopModel s) = ticksPerBeat s"
  "toneStarted (stopModel s) = toneStarted s"
  "awaitingInput (stopModel s) = awaitingInput s"
  by (simp_all add: stopModel_def)

lemma addToHistoryList_Returned:
  assumes "isNew h \<longrightarrow> noteHistory h \<noteq> []"
  shows "addToHistoryList (Some h) s =
     Returned (if isNew h then s\<lparr>allHistories := allHistories s @ [h]\<rparr> else s)"
  using assms by (simp add: addToHistoryList_def Let_def)

lemma rewind_Returned:
  assumes "toneStarted s" "\<not> awaitingInput s"
    and "currHistory s = Some h" "lastSeedNoteTime h = Some seed"
    and "isNew h \<longrightarrow> noteHistory h \<noteq> []"
  shows "rewind s =
     Returned (True, (replay_notes (rewind_window s h seed) (rewind_base s h seed))
                        \<lparr>startModelScheduleId := Some 800\<rparr>)"
  using assms addToHistoryList_Returned [OF assms(5), of s]
  by (simp add: rewind_def Let_def History_copy_def stopModel_def rewind_window_def
      rewind_committed_def rewind_target_def roundToOffset_def replaySeconds_def
      beatsToSeconds_def note_time_def rewind_base_def)

lemma rewind_base_fields [simp]:
  "transportSeconds (rewind_base s h seed) = rewind_target s seed"
  "callModelEnd (rewind_base s h seed) = js_add (rewind_target s seed) (replaySeconds s)"
  "audio_bpm (rewind_base s h seed) = audio_bpm s"
  "ticksPerBeat (rewind_base s h seed) = ticksPerBeat s"
  "heap (rewind_base s h seed) = heap s"
  "nextRef (rewind_base s h seed) = nextRef s"
  "nextScheduleId (rewind_base s h seed) = nextScheduleId s"
  "noteQueue (rewind_base s h seed) = []"
  "noteBuffer (rewind_base s h seed) = []"
  "activeNotes (rewind_base s h seed) = []"
  "modelStartTime (rewind_base s h seed) = None"
  "map_option noteHistory (currHistory (rewind_base s h seed)) =
     Some (History_removeHistory (note_time s) (rewind_committed s h seed) (rewind_target s seed))"
  by (simp_all add: rewind_base_def stopModel_def)

section \<open>Rewind: the new position\<close>

text \<open>
  Claim C3, as stated: the position \<open>rewind\<close> sets is strictly greater than
  \<open>lastSeedNoteTime - replaySeconds\<close>. At 70 beats per minute and four ticks per beat
  \<open>replaySeconds\<close> is \<open>3\<close> and the tick interval is the double next to \<open>3/14\<close>. With the
  transport at 12 seconds and \<open>lastSeedNoteTime = 8.25\<close>, \<open>rewind\<close> rounds
  \<open>max (12 - 8) (8.25 - 3) = 5.25\<close>: the remainder of \<open>5.25 + interval / 2\<close> falls short of the
  interval by \<open>3 / 2 ^ 55\<close>, and \<open>5.25 - remainder + interval\<close> rounds to \<open>5.25\<close>. The position
  is \<open>lastSeedNoteTime - replaySeconds\<close> and not above it.
\<close>

theorem rewind_position_not_strict:
  "rewind ex_piano_70 = Returned (True, snd (state_of (rewind ex_piano_70))) \<and>
   replaySeconds ex_piano_70 = 3 \<and>
   js_sub (33/4) (replaySeconds ex_piano_70) = 21/4 \<and>
   transportSeconds (snd (state_of (rewind ex_piano_70))) = 21/4 \<and>
   \<not> 33/4 - 3 < transportSeconds (snd (state_of (rewind ex_piano_70)))"
proof -
  have b: "audio_bpm ex_piano_70 = 70" "ticksPerBeat ex_piano_70 = 4"
    by (simp_all add: ex_piano_70_def ex_piano_def initial_piano_def)
  note tb = timebase_70 [OF b]
  have t: "transportSeconds ex_piano_70 = 12"
    by (simp add: ex_piano_70_def ex_piano_def)
  have T: "rewind_target ex_piano_70 (33/4) = 21/4"
    by (simp add: rewind_target_def t tb)
  have v: "toneStarted ex_piano_70" "\<not> awaitingInput ex_piano_70"
    "currHistory ex_piano_70 = Some ex_history_70" "lastSeedNoteTime ex_history_70 = Some (33/4)"
    "isNew ex_history_70 \<longrightarrow> noteHistory ex_history_70 \<noteq> []"
    by (simp_all add: ex_piano_70_def ex_history_70_def ex_piano_def initial_piano_def
        History_new_def)
  show ?thesis
    by (simp add: rewind_Returned [OF v] T tb)
qed

text \<open>
  Claim C3, amended. When \<open>rewind\<close> goes through (the tone has started, the listener does
  not await input, and the current History has a \<open>lastSeedNoteTime\<close>; a new History is
  archived first and must have a note for that), the position it sets is
  \<open>roundToOffset (max (now - 8) (lastSeedNoteTime - replaySeconds))\<close>, which is greater than
  or equal to \<open>lastSeedNoteTime - replaySeconds\<close>, and \<open>callModelEnd\<close> is that position plus
  \<open>replaySeconds\<close>; the differences and the sum are those of double arithmetic, as
  \<open>rewind\<close> computes them.
\<close>

theorem rewind_position:
  assumes "toneStarted s" "\<not> awaitingInput s"
    and "currHistory s = Some h" "lastSeedNoteTime h = Some seed"
    and "isNew h \<longrightarrow> noteHistory h \<noteq> []"
    and "0 < audio_bpm s" "0 < ticksPerBeat s"
  shows "\<exists>s'. rewind s = Returned (True, s') \<and>
     transportSeconds s' =
       roundToOffset s (max (js_sub (transportSeconds s) 8) (js_sub seed (replaySeconds s))) \<and>
     js_sub seed (replaySeconds s) \<le> transportSeconds s' \<and>
     callModelEnd s' = js_add (transportSeconds s') (replaySeconds s)"
proof -
  let ?t = "max (js_sub (transportSeconds s) 8) (js_sub seed (replaySeconds s))"
  note r = rewind_Returned [OF assms(1-5)]
  have "is_double ?t"
    by (simp add: max_def js_sub_def is_double_fl)
  then have "?t \<le> roundToOffset s ?t"
    by (rule roundToOffset_ge [OF assms(6,7)])
  then have "js_sub seed (replaySeconds s) \<le> roundToOffset s ?t" by simp
  then show ?thesis
    using r by (simp add: rewind_target_def)
qed

theorem rewind_position_witness:
  "(\<exists>s'. rewind ex_piano = Returned (True, s') \<and> transportSeconds s' = 225/32 \<and>
      10 - 3 \<le> transportSeconds s' \<and> callModelEnd s' = 321/32) \<and>
   (\<exists>s'. rewind ex_piano_70 = Returned (True, s') \<and> transportSeconds s' = 21/4 \<and>
      33/4 - 3 \<le> transportSeconds s' \<and> callModelEnd s' = 33/4)"
proof -
  have h: "toneStarted ex_piano" "\<not> awaitingInput ex_piano"
    "currHistory ex_piano = Some ex_history" "lastSeedNoteTime ex_history = Some 10"
    "isNew ex_history \<longrightarrow> noteHistory ex_history \<noteq> []"
    "0 < audio_bpm ex_piano" "0 < ticksPerBeat ex_piano"
    by (simp_all add: ex_piano_def ex_history_def initial_piano_def History_new_def defaultBPM_def)
  have b: "audio_bpm ex_piano = 80" "ticksPerBeat ex_piano = 4"
    by (simp_all add: ex_piano_def initial_piano_def defaultBPM_def)
  note tb = timebase_80 [OF b]
  have t: "transportSeconds ex_piano = 12"
    by (simp add: ex_piano_def)
  from rewind_position [OF h] obtain s' where s': "rewind ex_piano = Returned (True, s')"
    "transportSeconds s' =
       roundToOffset ex_piano (max (js_sub (transportSeconds ex_piano) 8)
         (js_sub 10 (replaySeconds ex_piano)))"
    "js_sub 10 (replaySeconds ex_piano) \<le> transportSeconds s'"
    "callModelEnd s' = js_add (transportSeconds s') (replaySeconds ex_piano)"
    by blast
  have p: "transportSeconds s' = 225/32"
    using s'(2) by (simp add: t tb)
  have e: "callModelEnd s' = 321/32"
    using s'(4) by (simp add: p tb)
  have "10 - 3 \<le> transportSeconds s'"
    using s'(3) by (simp add: tb)
  with s'(1) p e have one: "\<exists>s'. rewind ex_piano = Returned (True, s') \<and>
      transportSeconds s' = 225/32 \<and> 10 - 3 \<le> transportSeconds s' \<and> callModelEnd s' = 321/32"
    by blast
  have h7: "toneStarted ex_piano_70" "\<not> awaitingInput ex_piano_70"
    "currHistory ex_piano_70 = Some ex_history_70" "lastSeedNoteTime ex_history_70 = Some (33/4)"
    "isNew ex_history_70 \<longrightarrow> noteHistory ex_history_70 \<noteq> []"
    "0 < audio_bpm ex_piano_70" "0 < ticksPerBeat ex_piano_70"
    by (simp_all add: ex_piano_70_def ex_history_70_def ex_piano_def initial_piano_def
        History_new_def)
  have b7: "audio_bpm ex_piano_70 = 70" "ticksPerBeat ex_piano_70 = 4"
    by (simp_all add: ex_piano_70_def ex_piano_def initial_piano_def)
  note tb7 = timebase_70 [OF b7]
  have t7: "transportSeconds ex_piano_70 = 12"
    by (simp add: ex_piano_70_def ex_piano_def)
  from rewind_position [OF h7] obtain s7 where s7: "rewind ex_piano_70 = Returned (True, s7)"
    "transportSeconds s7 =
       roundToOffset ex_piano_70 (max (js_sub (transportSeconds ex_piano_70) 8)
         (js_sub (33/4) (replaySeconds ex_piano_70)))"
    "js_sub (33/4) (replaySeconds ex_piano_70) \<le> transportSeconds s7"
    "callModelEnd s7 = js_add (transportSeconds s7) (replaySeconds ex_piano_70)"
    by blast
  have p7: "transportSeconds s7 = 21/4"
    using s7(2) by (simp add: t7 tb7)
  have e7: "callModelEnd s7 = 33/4"
    using s7(4) by (simp add: p7 tb7)
  have "33/4 - 3 \<le> transportSeconds s7"
    using s7(3) by (simp add: tb7)
  with s7(1) p7 e7 have two: "\<exists>s'. rewind ex_piano_70 = Returned (True, s') \<and>
      transportSeconds s' = 21/4 \<and> 33/4 - 3 \<le> transportSeconds s' \<and> callModelEnd s' = 33/4"
    by blast
  from one two show ?thesis by blast
qed


section \<open>Recent history and removed history\<close>

lemma sorted_takeWhile_less:
  "sorted (map f xs) \<Longrightarrow> takeWhile (\<lambda>x. f x < (c::'b::linorder)) xs = filter (\<lambda>x. f x < c) xs"
proof (induction xs)
  case Nil
  then show ?case by simp
next
  case (Cons x xs)
  show ?case
  proof (cases "f x < c")
    case True
    with Cons show ?thesis by simp
  next
    case False
    with Cons.prems have "\<forall>y\<in>set xs. \<not> f y < c" by fastforce
    then have "filter (\<lambda>x. f x < c) xs = []" by (simp add: filter_empty_conv)
    with False show ?thesis by simp
  qed
qed

lemma sorted_dropWhile_less:
  "sorted (map f xs) \<Longrightarrow> dropWhile (\<lambda>x. f x < (c::'b::linorder)) xs = filter (\<lambda>x. c \<le> f x) xs"
proof (induction xs)
  case Nil
  then show ?case by simp
next
  case (Cons x xs)
  show ?case
  proof (cases "f x < c")
    case True
    with Cons show ?thesis by simp
  next
    case False
    with Cons.prems have "\<forall>y\<in>set xs. c \<le> f y" by fastforce
    then have "filter (\<lambda>x. c \<le> f x) xs = xs" by (simp add: filter_id_conv)
    with False show ?thesis by simp
  qed
qed

lemma takeWhile_rev_suffix:
  "rev (takeWhile P (rev xs)) = dropWhile (\<lambda>x. \<not> P x) xs" if "sorted (map f xs)"
    and "\<And>x. P x \<longleftrightarrow> (c::'b::linorder) \<le> f x" for f
proof -
  have "dropWhile (\<lambda>x. \<not> P x) xs = dropWhile (\<lambda>x. f x < c) xs"
    by (simp add: that(2) not_le)
  also have "\<dots> = filter (\<lambda>x. c \<le> f x) xs"
    using that(1) by (rule sorted_dropWhile_less)
  also have "\<dots> = filter P xs"
    by (rule filter_cong) (simp_all add: that(2))
  finally have "dropWhile (\<lambda>x. \<not> P x) xs = filter P xs" .
  moreover have "takeWhile P (rev xs) = rev (filter P xs)"
    using that
  proof (induction xs rule: rev_induct)
    case Nil
    then show ?case by simp
  next
    case (snoc x xs)
    have s: "sorted (map f xs)" and le: "\<forall>y\<in>set xs. f y \<le> f x"
      using snoc.prems(1) by (auto simp: sorted_append)
    show ?case
    proof (cases "P x")
      case True
      with snoc s show ?thesis by simp
    next
      case False
      with le snoc.prems(2) have "\<forall>y\<in>set xs. \<not> P y" by fastforce
      then have "filter P xs = []" by (simp add: filter_empty_conv)
      with False show ?thesis by simp
    qed
  qed
  ultimately show ?thesis by simp
qed

lemma History_removeHistory_sorted:
  "sorted (map tm ns) \<Longrightarrow> History_removeHistory tm ns c = filter (\<lambda>n. tm n < c) ns"
  unfolding History_removeHistory_def by (rule sorted_takeWhile_less)

lemma History_getRecentHistory_sorted:
  assumes "sorted (map tm ns)"
  shows "History_getRecentHistory tm ns st = filter (\<lambda>n. st \<le> tm n) ns"
proof -
  have "rev (takeWhile (\<lambda>n. st \<le> tm n) (rev ns)) = dropWhile (\<lambda>n. \<not> st \<le> tm n) ns"
    using assms by (rule takeWhile_rev_suffix) simp
  also have "\<dots> = dropWhile (\<lambda>n. tm n < st) ns"
    by (simp add: not_le)
  also have "\<dots> = filter (\<lambda>n. st \<le> tm n) ns"
    using assms by (rule sorted_dropWhile_less)
  finally show ?thesis by (simp add: History_getRecentHistory_def)
qed

lemma History_partition:
  "History_removeHistory tm ns c @ History_getRecentHistory tm ns c = ns"
  if "sorted (map tm ns)"
proof -
  have "rev (takeWhile (\<lambda>n. c \<le> tm n) (rev ns)) = dropWhile (\<lambda>n. \<not> c \<le> tm n) ns"
    using that by (rule takeWhile_rev_suffix) simp
  then have "History_getRecentHistory tm ns c = dropWhile (\<lambda>n. tm n < c) ns"
    by (simp add: History_getRecentHistory_def not_le)
  then show ?thesis by (simp add: History_removeHistory_def)
qed

lemma suffix_within_filter:
  "\<forall>n\<in>set (drop k ns). P n \<Longrightarrow> length ns - k \<le> length (filter P ns)"
proof -
  assume a: "\<forall>n\<in>set (drop k ns). P n"
  have "length ns - k = length (filter P (drop k ns))"
    using a by (simp add: filter_id_conv [THEN iffD2])
  also have "\<dots> \<le> length (filter P (take k ns)) + length (filter P (drop k ns))" by simp
  also have "\<dots> = length (filter P (take k ns) @ filter P (drop k ns))" by simp
  also have "filter P (take k ns) @ filter P (drop k ns) = filter P ns"
    by (metis append_take_drop_id filter_append)
  finally show ?thesis by simp
qed

text \<open>
  Claim C6. Let the array \<open>notes\<close> of the store hold a sequence \<open>ns\<close> in non-decreasing
  time order, and let \<open>getRecentHistory\<close> and then \<open>removeHistory\<close> be called on it with
  the same \<open>start\<close>. The result of \<open>getRecentHistory\<close> is a suffix of \<open>ns\<close>, in the order
  of \<open>ns\<close>: it holds exactly the notes with \<open>time \<ge> start\<close>, and no suffix of \<open>ns\<close> whose
  notes all have \<open>time \<ge> start\<close> is longer. The result of \<open>removeHistory\<close> is the
  complementary prefix, exactly the notes with \<open>time < start\<close>. The prefix followed by the
  suffix is \<open>ns\<close> and the two have no note in common. After both calls the array \<open>notes\<close>
  and every other array that existed hold what they held.
\<close>

theorem history_suffix_and_prefix:
  assumes "ns = arrays st notes" "sorted (map tm ns)" "notes < nextArray st"
    and "History_getRecentHistory_call tm notes start st = (recent, st1)"
    and "History_removeHistory_call tm notes start st1 = (removed, st2)"
  shows "arrays st2 recent = History_getRecentHistory tm ns start \<and>
     arrays st2 removed = History_removeHistory tm ns start \<and>
     arrays st2 recent = filter (\<lambda>n. start \<le> tm n) ns \<and>
     arrays st2 removed = filter (\<lambda>n. tm n < start) ns \<and>
     arrays st2 removed @ arrays st2 recent = ns \<and>
     (\<forall>k. (\<forall>n\<in>set (drop k ns). start \<le> tm n) \<longrightarrow> length ns - k \<le> length (arrays st2 recent)) \<and>
     set (arrays st2 removed) \<inter> set (arrays st2 recent) = {} \<and>
     arrays st1 notes = ns \<and> arrays st2 notes = ns \<and>
     (\<forall>a < nextArray st. arrays st2 a = arrays st a)"
proof -
  have r: "recent = nextArray st" "removed = Suc (nextArray st)"
    and st2: "arrays st2 = (arrays st)
        (nextArray st := History_getRecentHistory tm ns start,
         Suc (nextArray st) := History_removeHistory tm ns start)"
    and st1: "arrays st1 notes = ns"
    using assms(1,3,4,5)
    by (auto simp: History_getRecentHistory_call_def History_removeHistory_call_def)
  have g: "arrays st2 recent = History_getRecentHistory tm ns start"
    and d: "arrays st2 removed = History_removeHistory tm ns start"
    by (simp_all add: r st2)
  have gf: "History_getRecentHistory tm ns start = filter (\<lambda>n. start \<le> tm n) ns"
    using assms(2) by (rule History_getRecentHistory_sorted)
  have df: "History_removeHistory tm ns start = filter (\<lambda>n. tm n < start) ns"
    using assms(2) by (rule History_removeHistory_sorted)
  have p: "arrays st2 removed @ arrays st2 recent = ns"
    unfolding g d using assms(2) by (rule History_partition)
  have m: "\<forall>k. (\<forall>n\<in>set (drop k ns). start \<le> tm n) \<longrightarrow> length ns - k \<le> length (arrays st2 recent)"
    unfolding g gf by (intro allI impI suffix_within_filter)
  have i: "set (arrays st2 removed) \<inter> set (arrays st2 recent) = {}"
    unfolding g d gf df by auto
  have o: "arrays st2 notes = ns" "\<forall>a < nextArray st. arrays st2 a = arrays st a"
    using assms(1,3) by (simp_all add: st2)
  from g d gf df p m i st1 o show ?thesis by simp
qed

theorem history_suffix_and_prefix_witness:
  "sorted (map (note_time ex_example) (arrays ex_arrays 0)) \<and>
   arrays (snd (History_removeHistory_call (note_time ex_example) 0 8
      (snd (History_getRecentHistory_call (note_time ex_example) 0 8 ex_arrays)))) 1 = [2, 3] \<and>
   arrays (snd (History_removeHistory_call (note_time ex_example) 0 8
      (snd (History_getRecentHistory_call (note_time ex_example) 0 8 ex_arrays)))) 2 = [0, 1] \<and>
   arrays (snd (History_removeHistory_call (note_time ex_example) 0 8
      (snd (History_getRecentHistory_call (note_time ex_example) 0 8 ex_arrays)))) 0 = [0, 1, 2, 3]"
proof -
  have tm: "note_time ex_example 0 = 1" "note_time ex_example 1 = 5"
    "note_time ex_example 2 = 8" "note_time ex_example 3 = 10"
    "note_time ex_example (Suc 0) = 5"
    by (simp_all add: note_time_def ex_example_def ex_bot_note_def)
  have a: "arrays ex_arrays 0 = [0, 1, 2, 3]" "nextArray ex_arrays = 1"
    by (simp_all add: ex_arrays_def)
  have h: "[0, 1, 2, 3] = arrays ex_arrays 0" "sorted (map (note_time ex_example) [0, 1, 2, 3])"
    "0 < nextArray ex_arrays"
    by (simp_all add: a tm)
  let ?c1 = "History_getRecentHistory_call (note_time ex_example) 0 8 ex_arrays"
  let ?c2 = "History_removeHistory_call (note_time ex_example) 0 8 (snd ?c1)"
  have c: "?c1 = (1, snd ?c1)" "?c2 = (2, snd ?c2)"
    by (simp_all add: History_getRecentHistory_call_def History_removeHistory_call_def a)
  have g: "History_getRecentHistory (note_time ex_example) [0, Suc 0, 2, 3] 8 = [2, 3]"
    "History_removeHistory (note_time ex_example) [0, Suc 0, 2, 3] 8 = [0, Suc 0]"
    by (simp_all add: History_getRecentHistory_def History_removeHistory_def tm)
  show ?thesis
    using history_suffix_and_prefix [OF h c] by (simp add: tm a g)
qed


section \<open>Releasing a note\<close>

text \<open>
  Claim C7. Let \<open>a\<close> be the active note of key \<open>k\<close>, with recorded duration \<open>d\<close>, and let
  \<open>finalDuration = triggerTime - time a\<close>. If \<open>|d - finalDuration| \<le> 0.001\<close>, \<open>releaseNote\<close>
  sends no command to the sampler and leaves the note as it is (its duration stays \<open>d\<close>),
  and removes it from the active set. If \<open>|d - finalDuration| > 0.001\<close>, it sends one
  release command and writes \<open>finalDuration\<close> into the note in the store, which is the note
  the current History refers to; it removes the note from the active set as well.
\<close>

theorem releaseNote_epsilon:
  assumes "find (\<lambda>n. key (heap s n) = Some k) (activeNotes s) = Some a"
    and "d = duration (heap s a)" "finalDuration = triggerTime - time (heap s a)"
  shows "\<exists>s'. releaseNote (Some k) triggerTime toneNow s = Returned s' \<and>
     activeNotes s' = remove1 a (activeNotes s) \<and>
     currHistory s' = currHistory s \<and>
     (\<forall>n. n \<noteq> a \<longrightarrow> heap s' n = heap s n) \<and>
     (\<bar>d - finalDuration\<bar> \<le> 0.001 \<longrightarrow>
        sampler s' = sampler s \<and> heap s' a = heap s a) \<and>
     (\<bar>d - finalDuration\<bar> > 0.001 \<longrightarrow>
        sampler s' = sampler s @ [TriggerRelease k (toneNow + 0.1)] \<and>
        heap s' a = (heap s a)\<lparr>duration := finalDuration\<rparr>)"
proof (cases "\<bar>d - finalDuration\<bar> > 0.001")
  case True
  then show ?thesis
    using assms by (simp add: releaseNote_def Let_def)
next
  case False
  then show ?thesis
    using assms by (simp add: releaseNote_def Let_def)
qed

theorem releaseNote_epsilon_witness:
  "find (\<lambda>n. key (heap ex_sounding n) = Some 40) (activeNotes ex_sounding) = Some 0 \<and>
   map_option noteHistory (currHistory ex_sounding) = Some [0] \<and>
   (\<exists>s'. releaseNote (Some 40) 1.0005 5 ex_sounding = Returned s' \<and> activeNotes s' = [] \<and>
      sampler s' = [] \<and> duration (heap s' 0) = 1 \<and>
      map_option noteHistory (currHistory s') = Some [0]) \<and>
   (\<exists>s'. releaseNote (Some 40) 1.5 5 ex_sounding = Returned s' \<and> activeNotes s' = [] \<and>
      sampler s' = [TriggerRelease 40 5.1] \<and> duration (heap s' 0) = 1.5 \<and>
      map_option noteHistory (currHistory s') = Some [0])"
proof -
  have h: "find (\<lambda>n. key (heap ex_sounding n) = Some 40) (activeNotes ex_sounding) = Some 0"
    by (simp add: ex_sounding_def ex_note_def)
  have v: "heap ex_sounding 0 = ex_note" "activeNotes ex_sounding = [0]" "sampler ex_sounding = []"
    "currHistory ex_sounding = Some ex_history" "noteHistory ex_history = [0]"
    by (simp_all add: ex_sounding_def ex_piano_def initial_piano_def ex_history_def History_new_def)
  have d: "duration ex_note = 1" "time ex_note = 0"
    by (simp_all add: ex_note_def)
  show ?thesis
    using h releaseNote_epsilon [OF h refl refl, of "1.0005" 5]
      releaseNote_epsilon [OF h refl refl, of "1.5" 5]
    by (auto simp: v d)
qed

section \<open>The active set holds one note per key\<close>

lemma find_key_distinct:
  assumes "distinct (map f xs)" "find (\<lambda>n. f n = k) xs = Some a"
  shows "\<forall>n\<in>set (remove1 a xs). f n \<noteq> k"
proof
  fix n assume n: "n \<in> set (remove1 a xs)"
  have d: "distinct xs" and i: "inj_on f (set xs)"
    using assms(1) by (simp_all add: distinct_map)
  have a: "a \<in> set xs" "f a = k"
    using assms(2) by (auto simp: find_Some_iff)
  have "n \<in> set xs" "n \<noteq> a"
    using n d by simp_all
  then show "f n \<noteq> k"
    using a i by (auto dest: inj_onD)
qed

lemma find_None_key: "find (\<lambda>n. f n = k) xs = None \<Longrightarrow> \<forall>n\<in>set xs. f n \<noteq> k"
  by (simp add: find_None_iff)

lemma distinct_map_remove1:
  assumes "distinct (map f xs)"
  shows "distinct (map f (remove1 a xs))"
proof -
  have "distinct xs" "inj_on f (set xs)"
    using assms by (simp_all add: distinct_map)
  then have "distinct (remove1 a xs)" "inj_on f (set (remove1 a xs))"
    by (auto intro: inj_on_subset [where A = "set xs"] dest: notin_set_remove1)
  then show ?thesis by (simp add: distinct_map)
qed

lemma active_inv_frame:
  assumes "active_inv s"
    and "activeNotes s' = activeNotes s"
    and "\<And>n. n \<in> set (activeNotes s) \<Longrightarrow> key (heap s' n) = key (heap s n)"
    and "nextRef s \<le> nextRef s'"
    and "\<And>e. e \<in> set (transportEvents s') \<Longrightarrow>
           e \<in> set (transportEvents s) \<or> snd e < nextRef s'"
    and "\<And>n. n \<in> set (noteBuffer s') \<Longrightarrow> n \<in> set (noteBuffer s) \<or> n < nextRef s'"
  shows "active_inv s'"
proof -
  have m: "map (\<lambda>n. key (heap s' n)) (activeNotes s) = map (\<lambda>n. key (heap s n)) (activeNotes s)"
    by (rule map_cong) (simp_all add: assms(3))
  have "distinct (map (\<lambda>n. key (heap s n)) (activeNotes s))"
    using assms(1) by (simp add: active_inv_def one_per_key_def)
  then have "one_per_key s'"
    unfolding one_per_key_def assms(2) m .
  moreover have "allocated s'"
    using assms(1,2,4,5,6) unfolding active_inv_def allocated_def
    by (metis less_le_trans)
  ultimately show ?thesis by (simp add: active_inv_def)
qed

lemma active_inv_allocated: "active_inv s \<Longrightarrow> n \<in> set (activeNotes s) \<Longrightarrow> n < nextRef s"
  by (simp add: active_inv_def allocated_def)

lemma releaseNote_cases:
  "(find (\<lambda>n. key (heap s n) = k) (activeNotes s) = None \<and>
      releaseNote k t toneNow s = Returned s) \<or>
   (\<exists>a s'. find (\<lambda>n. key (heap s n) = k) (activeNotes s) = Some a \<and>
      state_of (releaseNote k t toneNow s) = s' \<and>
      activeNotes s' = remove1 a (activeNotes s) \<and>
      (\<forall>n. key (heap s' n) = key (heap s n)) \<and>
      nextRef s' = nextRef s \<and> transportEvents s' = transportEvents s \<and>
      noteBuffer s' = noteBuffer s \<and> noteQueue s' = noteQueue s \<and>
      currHistory s' = currHistory s)"
  by (cases "find (\<lambda>n. key (heap s n) = k) (activeNotes s)")
    (auto simp: releaseNote_def Let_def split: option.splits)

lemma releaseNote_inv:
  assumes "active_inv s"
  shows "active_inv (state_of (releaseNote k t toneNow s))"
    and "\<forall>n\<in>set (activeNotes (state_of (releaseNote k t toneNow s))).
           key (heap (state_of (releaseNote k t toneNow s)) n) \<noteq> k"
    and "nextRef (state_of (releaseNote k t toneNow s)) = nextRef s"
    and "\<And>n. key (heap (state_of (releaseNote k t toneNow s)) n) = key (heap s n)"
proof -
  let ?s' = "state_of (releaseNote k t toneNow s)"
  from releaseNote_cases [of s k t toneNow]
  have "active_inv ?s' \<and> (\<forall>n\<in>set (activeNotes ?s'). key (heap ?s' n) \<noteq> k) \<and>
        nextRef ?s' = nextRef s \<and> (\<forall>n. key (heap ?s' n) = key (heap s n))"
  proof (elim disjE exE conjE)
    assume n: "find (\<lambda>n. key (heap s n) = k) (activeNotes s) = None"
      and r: "releaseNote k t toneNow s = Returned s"
    then show ?thesis using assms find_None_key [OF n] by simp
  next
    fix a s'
    assume f: "find (\<lambda>n. key (heap s n) = k) (activeNotes s) = Some a"
      and s': "state_of (releaseNote k t toneNow s) = s'"
      and a: "activeNotes s' = remove1 a (activeNotes s)"
      and k: "\<forall>n. key (heap s' n) = key (heap s n)"
      and o: "nextRef s' = nextRef s" "transportEvents s' = transportEvents s"
        "noteBuffer s' = noteBuffer s"
    have d: "distinct (map (\<lambda>n. key (heap s n)) (activeNotes s))"
      using assms by (simp add: active_inv_def one_per_key_def)
    have "\<forall>n\<in>set (remove1 a (activeNotes s)). key (heap s n) \<noteq> k"
      using d f by (rule find_key_distinct)
    moreover have "active_inv s'"
      using assms a k o distinct_map_remove1 [OF d, of a]
      by (auto simp: active_inv_def one_per_key_def allocated_def dest: notin_set_remove1)
    ultimately show ?thesis using s' a k o by auto
  qed
  then show "active_inv ?s'" "\<forall>n\<in>set (activeNotes ?s'). key (heap ?s' n) \<noteq> k"
    "nextRef ?s' = nextRef s" "\<And>n. key (heap ?s' n) = key (heap s n)"
    by blast+
qed

lemma new_Note_inv:
  assumes "active_inv s"
  shows "active_inv (snd (new_Note n s))"
  using assms
proof (rule active_inv_frame)
  fix m assume "m \<in> set (activeNotes s)"
  then have "m \<noteq> nextRef s"
    using active_inv_allocated [OF assms] by blast
  then show "key (heap (snd (new_Note n s)) m) = key (heap s m)" by simp
qed simp_all

lemma new_Note_fresh: "fst (new_Note n s) < nextRef (snd (new_Note n s))"
  by simp

lemma scheduleNote_inv:
  assumes "active_inv s" "n < nextRef s"
  shows "active_inv (scheduleNote n s)"
  using assms(1)
proof (rule active_inv_frame)
  fix e assume "e \<in> set (transportEvents (scheduleNote n s))"
  then show "e \<in> set (transportEvents s) \<or> snd e < nextRef (scheduleNote n s)"
    using assms(2) by auto
qed simp_all

lemma playNote_inv:
  assumes "active_inv s" "note < nextRef s"
  shows "active_inv (state_of (playNote note contextTime toneNow s))"
proof -
  let ?k = "key (heap s note)"
  let ?r = "releaseNote ?k (time (heap s note)) toneNow s"
  let ?s1 = "state_of ?r"
  have i1: "active_inv ?s1"
    and nk: "\<forall>n\<in>set (activeNotes ?s1). key (heap ?s1 n) \<noteq> ?k"
    and nr: "nextRef ?s1 = nextRef s"
    and ks: "\<And>n. key (heap ?s1 n) = key (heap s n)"
    using releaseNote_inv [OF assms(1)] by blast+
  show ?thesis
  proof (cases ?r)
    case (Threw e s1)
    then show ?thesis using i1 by (simp add: playNote_def)
  next
    case (Returned s1)
    then have s1: "?s1 = s1" by simp
    have pushed: "active_inv (s1\<lparr>sampler := c, activeNotes := activeNotes s1 @ [note]\<rparr>)" for c
      using i1 nk nr ks [of "note"] assms(2) unfolding s1
      by (auto simp: active_inv_def one_per_key_def allocated_def)
    show ?thesis
    proof (cases "key (heap s1 note)")
      case None
      then show ?thesis using Returned i1 by (simp add: playNote_def)
    next
      case (Some k)
      show ?thesis
      proof (cases "currHistory s1")
        case None
        then show ?thesis
          using Returned Some pushed by (simp add: playNote_def Let_def)
      next
        case (Some h)
        then show ?thesis
          using Returned \<open>key (heap s1 note) = Some k\<close>
          by (auto simp: playNote_def Let_def intro!: active_inv_frame [OF pushed])
      qed
    qed
  qed
qed

lemma releaseAllNotes_loop_inv:
  "active_inv s \<Longrightarrow> active_inv (state_of (releaseAllNotes_loop ns toneNow s))"
proof (induction ns arbitrary: s)
  case Nil
  then show ?case by simp
next
  case (Cons n ns)
  let ?r = "releaseNote (key (heap s n)) (transportSeconds s) toneNow s"
  have i: "active_inv (state_of ?r)"
    using Cons.prems by (rule releaseNote_inv)
  show ?case
  proof (cases ?r)
    case (Returned s1)
    with i Cons.IH [of s1] show ?thesis by simp
  next
    case (Threw e s1)
    with i show ?thesis by simp
  qed
qed

lemma stopModel_inv: "active_inv s \<Longrightarrow> active_inv (stopModel s)"
  by (erule active_inv_frame) (auto simp: stopModel_def)

lemma addToHistoryList_fields [simp]:
  "activeNotes (state_of (addToHistoryList h s)) = activeNotes s"
  "heap (state_of (addToHistoryList h s)) = heap s"
  "nextRef (state_of (addToHistoryList h s)) = nextRef s"
  "transportEvents (state_of (addToHistoryList h s)) = transportEvents s"
  "noteBuffer (state_of (addToHistoryList h s)) = noteBuffer s"
  "noteQueue (state_of (addToHistoryList h s)) = noteQueue s"
  "currHistory (state_of (addToHistoryList h s)) = currHistory s"
  "modelStartTime (state_of (addToHistoryList h s)) = modelStartTime s"
  by (simp_all add: addToHistoryList_def Let_def split: option.splits)

lemma addToHistoryList_inv:
  "active_inv s \<Longrightarrow> active_inv (state_of (addToHistoryList h s))"
  by (erule active_inv_frame) simp_all

lemma active_inv_empty:
  assumes "active_inv s" "activeNotes s' = []" "nextRef s \<le> nextRef s'"
    and "\<And>e. e \<in> set (transportEvents s') \<Longrightarrow>
           e \<in> set (transportEvents s) \<or> snd e < nextRef s'"
    and "\<And>n. n \<in> set (noteBuffer s') \<Longrightarrow> n \<in> set (noteBuffer s) \<or> n < nextRef s'"
  shows "active_inv s'"
proof -
  have "allocated s'"
    using assms unfolding active_inv_def allocated_def
    by (metis empty_iff less_le_trans list.set(1))
  then show ?thesis
    using assms(2) by (simp add: active_inv_def one_per_key_def)
qed

lemma resetAll_inv:
  assumes "active_inv s"
  shows "active_inv (state_of (resetAll toneNow s))"
proof -
  let ?r = "releaseAllNotes toneNow s"
  have i: "active_inv (state_of ?r)"
    using assms by (simp add: releaseAllNotes_def releaseAllNotes_loop_inv)
  show ?thesis
  proof (cases ?r)
    case (Threw e s1)
    with i show ?thesis by (simp add: resetAll_def)
  next
    case (Returned s1)
    with i have i1: "active_inv s1" by simp
    let ?s2 = "(stopModel s1)\<lparr>transportEvents := []\<rparr>"
    have i2: "active_inv ?s2"
      using i1 by (rule active_inv_frame) simp_all
    have i3: "active_inv (state_of (addToHistoryList (currHistory ?s2) ?s2))"
      using i2 by (rule addToHistoryList_inv)
    show ?thesis
    proof (cases "addToHistoryList (currHistory ?s2) ?s2")
      case (Threw e s3)
      with i3 Returned show ?thesis by (simp add: resetAll_def Let_def)
    next
      case r3: (Returned s3)
      with i3 have "active_inv s3" by simp
      then have "active_inv (s3\<lparr>currHistory := None, activeNotes := [], toneStarted := False,
                         listenerIntervalId := None\<rparr>)"
        by (rule active_inv_empty) simp_all
      with r3 Returned show ?thesis by (simp add: resetAll_def Let_def)
    qed
  qed
qed

lemma callModel_inv: "active_inv s \<Longrightarrow> active_inv (callModel now sched s)"
  by (erule active_inv_frame) (auto simp: callModel_def split: option.splits)

lemma callModel_notes_inv:
  "active_inv s \<Longrightarrow> active_inv (callModel_notes sched gens s)"
proof (induction gens arbitrary: s)
  case Nil
  then show ?case by simp
next
  case (Cons gen gens)
  let ?a = "new_Note (generated_Note s gen) s"
  have i: "active_inv (snd ?a)"
    using Cons.prems by (rule new_Note_inv)
  have "active_inv (scheduleNote (fst ?a) (snd ?a))"
    using i by (rule scheduleNote_inv) simp
  moreover have "active_inv ((snd ?a)\<lparr>noteBuffer := noteBuffer (snd ?a) @ [fst ?a]\<rparr>)"
    using i by (rule active_inv_frame) auto
  ultimately show ?case
    using Cons.IH by (cases sched) (simp_all add: split_def Let_def)
qed

lemma callModel_resume_inv: "active_inv s \<Longrightarrow> active_inv (callModel_resume c gens s)"
proof -
  assume i: "active_inv s"
  have "active_inv ((callModel_notes b gens s)\<lparr>callModelEnd := e\<rparr>)" for b e
    using callModel_notes_inv [OF i, of b gens] by (rule active_inv_frame) simp_all
  with i show ?thesis
    by (simp add: callModel_resume_def Let_def split: option.splits)
qed

lemma startModel_inv: "active_inv s \<Longrightarrow> active_inv (startModel now now' s)"
proof -
  assume i: "active_inv s"
  have "active_inv (s\<lparr>modelStartTime := Some now\<rparr>)"
    using i by (rule active_inv_frame) simp_all
  then have "active_inv (callModel now' True (s\<lparr>modelStartTime := Some now\<rparr>))"
    by (rule callModel_inv)
  then show ?thesis
    unfolding startModel_def Let_def by (rule active_inv_frame) simp_all
qed

lemma seedInputListener_inv: "active_inv s \<Longrightarrow> active_inv (seedInputListener s)"
  by (erule active_inv_frame) (simp_all add: seedInputListener_def Let_def)

lemma scheduleNotes_fields [simp]:
  "nextRef (scheduleNotes ns s) = nextRef s"
  "noteBuffer (scheduleNotes ns s) = noteBuffer s"
  "activeNotes (scheduleNotes ns s) = activeNotes s"
  "noteQueue (scheduleNotes ns s) = noteQueue s @ ns"
  "map snd (transportEvents (scheduleNotes ns s)) = map snd (transportEvents s) @ ns"
  "callModelEnd (scheduleNotes ns s) = callModelEnd s"
  "transportSeconds (scheduleNotes ns s) = transportSeconds s"
  "audio_bpm (scheduleNotes ns s) = audio_bpm s"
  "ticksPerBeat (scheduleNotes ns s) = ticksPerBeat s"
  "currHistory (scheduleNotes ns s) = currHistory s"
  "modelStartTime (scheduleNotes ns s) = modelStartTime s"
  by (induction ns arbitrary: s) simp_all

lemma scheduleNotes_inv:
  "active_inv s \<Longrightarrow> \<forall>n\<in>set ns. n < nextRef s \<Longrightarrow> active_inv (scheduleNotes ns s)"
proof (induction ns arbitrary: s)
  case Nil
  then show ?case by simp
next
  case (Cons n ns)
  then have "active_inv (scheduleNote n s)"
    by (simp add: scheduleNote_inv)
  with Cons show ?case by simp
qed

lemma seedInputAwaiter_inv:
  assumes "active_inv s"
  shows "active_inv (state_of (seedInputAwaiter currTime now now' detected s))"
proof (cases "modelStartTime s = None")
  case True
  have f: "active_inv s'" if "activeNotes s' = activeNotes s" "heap s' = heap s"
    "nextRef s' = nextRef s" "transportEvents s' = transportEvents s"
    "noteBuffer s' = noteBuffer s" for s'
    using assms by (rule active_inv_frame) (simp_all add: that)
  show ?thesis
  proof (cases "currTime - lastActivity s \<ge> inputWaitTime \<and> activeNotes s = []")
    case False
    with True assms show ?thesis by (auto simp: seedInputAwaiter_def)
  next
    case go: True
    show ?thesis
    proof (cases "currHistory s")
      case None
      with True go assms show ?thesis by (simp add: seedInputAwaiter_def)
    next
      case (Some h)
      show ?thesis
      proof (cases "noteHistory h = []")
        case True
        with \<open>modelStartTime s = None\<close> go Some show ?thesis
          by (simp add: seedInputAwaiter_def Let_def f)
      next
        case False
        with \<open>modelStartTime s = None\<close> go Some show ?thesis
          by (simp add: seedInputAwaiter_def Let_def f callModel_inv)
      qed
    qed
  qed
next
  case False
  let ?s1 = "s\<lparr>transportSeconds := callModelEnd s - beatsToSeconds s bufferBeats\<rparr>"
  have i1: "active_inv ?s1"
    using assms by (rule active_inv_frame) simp_all
  have b: "\<forall>n\<in>set (noteBuffer ?s1). n < nextRef ?s1"
    using assms by (simp add: active_inv_def allocated_def)
  have "active_inv (scheduleNotes (noteBuffer ?s1) ?s1)"
    using i1 b by (rule scheduleNotes_inv)
  then have "active_inv ((scheduleNotes (noteBuffer ?s1) ?s1)\<lparr>noteBuffer := []\<rparr>)"
    by (rule active_inv_frame) simp_all
  then have "active_inv (startModel now now' ((scheduleNotes (noteBuffer ?s1) ?s1)\<lparr>noteBuffer := []\<rparr>))"
    by (rule startModel_inv)
  then have confirm: "active_inv ((startModel now now'
      ((scheduleNotes (noteBuffer ?s1) ?s1)\<lparr>noteBuffer := []\<rparr>))\<lparr>awaitingInput := False,
        listenerIntervalId := None\<rparr>)"
    by (rule active_inv_frame) simp_all
  from False obtain started where "modelStartTime s = Some started" by auto
  then show ?thesis
    using assms confirm stopModel_inv [OF assms]
    by (simp add: seedInputAwaiter_def Let_def)
qed

lemma replay_notes_inv: "active_inv s \<Longrightarrow> active_inv (replay_notes ns s)"
proof (induction ns arbitrary: s)
  case Nil
  then show ?case by simp
next
  case (Cons n ns)
  let ?a = "new_Note \<lparr>key = key (heap s n), velocity = velocity (heap s n),
      duration = duration (heap s n), time = time (heap s n), actor = actor (heap s n),
      scheduleId = None, isRewind = True\<rparr> s"
  have "active_inv (snd ?a)"
    using Cons.prems by (rule new_Note_inv)
  then have "active_inv (scheduleNote (fst ?a) (snd ?a))"
    by (rule scheduleNote_inv) simp
  then show ?case
    using Cons.IH by (simp add: split_def Let_def)
qed

lemma transport_fires_inv:
  assumes "active_inv s"
  shows "active_inv (state_of (transport_fires i contextTime toneNow s))"
proof (cases "map_of (transportEvents s) i")
  case None
  with assms show ?thesis by (simp add: transport_fires_def)
next
  case (Some n)
  then have "(i, n) \<in> set (transportEvents s)" by (rule map_of_SomeD)
  then have n: "n < nextRef s"
    using assms by (auto simp: active_inv_def allocated_def)
  let ?s1 = "s\<lparr>transportEvents := filter (\<lambda>e. fst e \<noteq> i) (transportEvents s)\<rparr>"
  have "active_inv ?s1"
    using assms by (rule active_inv_frame) auto
  then have "active_inv (state_of (playNote n contextTime toneNow ?s1))"
    by (rule playNote_inv) (simp add: n)
  with Some show ?thesis by (simp add: transport_fires_def)
qed

lemma rewind_inv:
  assumes "active_inv s"
  shows "active_inv (snd (state_of (rewind s)))"
proof (cases "\<not> toneStarted s \<or> awaitingInput s")
  case True
  with assms show ?thesis by (auto simp: rewind_def)
next
  case go: False
  let ?r1 = "addToHistoryList (currHistory s) s"
  have i1: "active_inv (state_of ?r1)"
    using assms by (rule addToHistoryList_inv)
  show ?thesis
  proof (cases ?r1)
    case (Threw e s1)
    with go i1 show ?thesis by (simp add: rewind_def)
  next
    case r1: (Returned s1)
    with i1 have "active_inv s1" by simp
    then have "active_inv (stopModel s1)" by (rule stopModel_inv)
    then have i2: "active_inv ((stopModel s1)\<lparr>activeNotes := []\<rparr>)"
      by (rule active_inv_empty) simp_all
    let ?s2 = "(stopModel s1)\<lparr>activeNotes := []\<rparr>"
    show ?thesis
    proof (cases "currHistory s1")
      case None
      with go r1 i2 show ?thesis by (simp add: rewind_def Let_def)
    next
      case (Some h0)
      have i3: "active_inv (?s2\<lparr>currHistory := c, nextHid := i\<rparr>)" for c i
        using i2 by (rule active_inv_frame) simp_all
      show ?thesis
      proof (cases "lastSeedNoteTime h0")
        case None
        with go r1 Some i3 show ?thesis
          by (simp add: rewind_def Let_def History_copy_def)
      next
        case seed: (Some seed)
        have "active_inv ((replay_notes ns (?s2\<lparr>currHistory := c, nextHid := i,
            transportSeconds := t, callModelEnd := e, currHistory := c'\<rparr>))
            \<lparr>startModelScheduleId := Some 800\<rparr>)" for ns c i t e c'
        proof -
          have "active_inv (?s2\<lparr>currHistory := c, nextHid := i, transportSeconds := t,
            callModelEnd := e, currHistory := c'\<rparr>)"
            using i2 by (rule active_inv_frame) simp_all
          then have "active_inv (replay_notes ns (?s2\<lparr>currHistory := c, nextHid := i,
            transportSeconds := t, callModelEnd := e, currHistory := c'\<rparr>))"
            by (rule replay_notes_inv)
          then show ?thesis
            by (rule active_inv_frame) simp_all
        qed
        with go r1 Some seed show ?thesis
          by (simp add: rewind_def Let_def History_copy_def)
      qed
    qed
  qed
qed

lemma step_inv: "active_inv s \<Longrightarrow> active_inv (step e s)"
proof (cases e)
  case (Ev_playNote n contextTime toneNow)
  assume "active_inv s"
  then have "active_inv (snd (new_Note n s))" by (rule new_Note_inv)
  then have "active_inv (state_of (playNote (fst (new_Note n s)) contextTime toneNow
      (snd (new_Note n s))))"
    by (rule playNote_inv) simp
  with Ev_playNote show ?thesis by (simp add: split_def)
next
  case (Ev_scheduleNote n)
  assume "active_inv s"
  then have "active_inv (snd (new_Note n s))" by (rule new_Note_inv)
  then have "active_inv (scheduleNote (fst (new_Note n s)) (snd (new_Note n s)))"
    by (rule scheduleNote_inv) simp
  with Ev_scheduleNote show ?thesis by (simp add: split_def)
next
  case (Ev_transport_advances t)
  assume "active_inv s"
  then have "active_inv (s\<lparr>transportSeconds := t\<rparr>)"
    by (rule active_inv_frame) simp_all
  with Ev_transport_advances show ?thesis by simp
next
  case Ev_startTone
  assume "active_inv s"
  then have "active_inv (s\<lparr>toneStarted := True\<rparr>)"
    by (rule active_inv_frame) simp_all
  with Ev_startTone show ?thesis by simp
next
  case (Ev_activity now)
  assume "active_inv s"
  then have "active_inv (s\<lparr>lastActivity := now\<rparr>)"
    by (rule active_inv_frame) simp_all
  with Ev_activity show ?thesis by simp
next
  case (Ev_setBPM b)
  assume "active_inv s"
  then have "active_inv (s\<lparr>audio_bpm := b\<rparr>)"
    by (rule active_inv_frame) simp_all
  with Ev_setBPM show ?thesis by simp
next
  case (Ev_currHistory h)
  assume "active_inv s"
  then have "active_inv (s\<lparr>currHistory := h\<rparr>)"
    by (rule active_inv_frame) simp_all
  with Ev_currHistory show ?thesis by simp
next
  case (Ev_scheduleStartModel t)
  assume "active_inv s"
  then have "active_inv (scheduleStartModel t s)"
    by (rule active_inv_frame) (simp_all add: scheduleStartModel_def)
  with Ev_scheduleStartModel show ?thesis by simp
qed (simp_all add: transport_fires_inv releaseNote_inv releaseAllNotes_def
    releaseAllNotes_loop_inv callModel_inv callModel_resume_inv startModel_inv stopModel_inv
    resetAll_inv seedInputListener_inv seedInputAwaiter_inv rewind_inv)

lemma run_inv: "active_inv s \<Longrightarrow> active_inv (run es s)"
  by (induction es arbitrary: s) (simp_all add: step_inv)

lemma initial_inv: "active_inv (initial_piano octaves tpb now)"
  by (simp add: active_inv_def one_per_key_def allocated_def initial_piano_def)

lemma playNote_registers:
  assumes "one_per_key s" "playNote n contextTime toneNow s = Returned s'"
  shows "filter (\<lambda>m. key (heap s' m) = key (heap s' n)) (activeNotes s') = [n]"
proof -
  let ?k = "key (heap s n)"
  let ?r = "releaseNote ?k (time (heap s n)) toneNow s"
  obtain s1 where r: "?r = Returned s1"
    using assms(2) by (cases ?r) (simp_all add: playNote_def)
  have d: "distinct (map (\<lambda>n. key (heap s n)) (activeNotes s))"
    using assms(1) by (simp add: one_per_key_def)
  from releaseNote_cases [of s ?k "time (heap s n)" toneNow]
  have nk: "\<forall>m\<in>set (activeNotes s1). key (heap s1 m) \<noteq> ?k" and ks: "key (heap s1 n) = ?k"
    using r d by (auto dest: find_None_key find_key_distinct)
  have "activeNotes s' = activeNotes s1 @ [n] \<and> heap s' = heap s1"
    using assms(2) r
    by (auto simp: playNote_def Let_def split: option.splits)
  then show ?thesis
    using nk ks by (simp add: filter_empty_conv)
qed

lemma ex_run: "activeNotes (run ex_events (initial_piano 3 4 0)) = [1]"
  by (simp add: ex_events_def initial_piano_def seedInputListener_def new_Note_def playNote_def
      releaseNote_def ex_held_def Let_def History_new_def note_time_def)

text \<open>
  Claim C8. In every state the engine reaches from the state the constructor builds, by
  any sequence of calls of its methods, the active set has at most one entry per piano
  key. In particular: after \<open>releaseNote k\<close> no active note is a note of key \<open>k\<close>;
  \<open>releaseNote\<close> of a key with no active note returns without an error and changes
  nothing; and when \<open>playNote n\<close> returns, \<open>n\<close> is the one active note of its key.
\<close>

theorem active_notes_one_per_key:
  "one_per_key (run es (initial_piano octaves tpb now)) \<and>
   (one_per_key s \<longrightarrow>
      (\<forall>n\<in>set (activeNotes (state_of (releaseNote k t toneNow s))).
         key (heap (state_of (releaseNote k t toneNow s)) n) \<noteq> k)) \<and>
   (find (\<lambda>n. key (heap s n) = k) (activeNotes s) = None \<longrightarrow>
      releaseNote k t toneNow s = Returned s) \<and>
   (one_per_key s \<and> playNote n contextTime toneNow s = Returned s' \<longrightarrow>
      filter (\<lambda>m. key (heap s' m) = key (heap s' n)) (activeNotes s') = [n])"
proof (intro conjI impI)
  have "active_inv (run es (initial_piano octaves tpb now))"
    using initial_inv by (rule run_inv)
  then show "one_per_key (run es (initial_piano octaves tpb now))"
    by (simp add: active_inv_def)
next
  assume "one_per_key s"
  then have d: "distinct (map (\<lambda>n. key (heap s n)) (activeNotes s))"
    by (simp add: one_per_key_def)
  from releaseNote_cases [of s k t toneNow]
  show "\<forall>n\<in>set (activeNotes (state_of (releaseNote k t toneNow s))).
         key (heap (state_of (releaseNote k t toneNow s)) n) \<noteq> k"
    using d by (auto dest: find_None_key find_key_distinct)
next
  assume "find (\<lambda>n. key (heap s n) = k) (activeNotes s) = None"
  then show "releaseNote k t toneNow s = Returned s"
    by (simp add: releaseNote_def)
next
  assume "one_per_key s \<and> playNote n contextTime toneNow s = Returned s'"
  then show "filter (\<lambda>m. key (heap s' m) = key (heap s' n)) (activeNotes s') = [n]"
    using playNote_registers by blast
qed


theorem active_notes_one_per_key_witness:
  "one_per_key (run ex_events (initial_piano 3 4 0)) \<and>
   activeNotes (run ex_events (initial_piano 3 4 0)) = [1] \<and>
   one_per_key ex_sounding \<and>
   activeNotes (state_of (releaseNote (Some 40) 1 5 ex_sounding)) = [] \<and>
   releaseNote (Some 41) 1 5 ex_sounding = Returned ex_sounding \<and>
   playNote 0 2 5 ex_sounding = Returned (state_of (playNote 0 2 5 ex_sounding)) \<and>
   activeNotes (state_of (playNote 0 2 5 ex_sounding)) = [0]"
proof -
  let ?p = "state_of (playNote 0 2 5 ex_sounding)"
  have v: "heap ex_sounding 0 = ex_note" "activeNotes ex_sounding = [0]"
    "currHistory ex_sounding = Some ex_history"
    by (simp_all add: ex_sounding_def ex_piano_def initial_piano_def)
  have o: "one_per_key ex_sounding"
    by (simp add: one_per_key_def v)
  have f: "find (\<lambda>n. key (heap ex_sounding n) = Some 41) (activeNotes ex_sounding) = None"
    by (simp add: v ex_note_def)
  have r: "activeNotes (state_of (releaseNote (Some 40) 1 5 ex_sounding)) = []"
    by (simp add: releaseNote_def v ex_note_def Let_def)
  have p: "playNote 0 2 5 ex_sounding = Returned ?p" "activeNotes ?p = [0]"
    by (simp_all add: playNote_def releaseNote_def v ex_note_def Let_def)
  show ?thesis
    using active_notes_one_per_key [of ex_events 3 4 0 ex_sounding "Some 41" 1 5 0 2 ?p]
      o f r p ex_run
    by simp
qed


section \<open>Stale results of the model\<close>

lemma releaseNote_modelStartTime [simp]:
  "modelStartTime (state_of (releaseNote k t toneNow s)) = modelStartTime s"
  by (simp add: releaseNote_def Let_def split: option.splits)

lemma playNote_modelStartTime [simp]:
  "modelStartTime (state_of (playNote n contextTime toneNow s)) = modelStartTime s"
proof (cases "releaseNote (key (heap s n)) (time (heap s n)) toneNow s")
  case (Returned s1)
  then have "modelStartTime s1 = modelStartTime s"
    using releaseNote_modelStartTime [of "key (heap s n)" "time (heap s n)" toneNow s] by simp
  with Returned show ?thesis
    by (simp add: playNote_def Let_def split: option.splits)
next
  case (Threw e s1)
  then have "modelStartTime s1 = modelStartTime s"
    using releaseNote_modelStartTime [of "key (heap s n)" "time (heap s n)" toneNow s] by simp
  with Threw show ?thesis by (simp add: playNote_def)
qed

lemma transport_fires_modelStartTime [simp]:
  "modelStartTime (state_of (transport_fires i contextTime toneNow s)) = modelStartTime s"
  by (simp add: transport_fires_def split: option.splits)

lemma releaseAllNotes_loop_modelStartTime [simp]:
  "modelStartTime (state_of (releaseAllNotes_loop ns toneNow s)) = modelStartTime s"
proof (induction ns arbitrary: s)
  case Nil
  then show ?case by simp
next
  case (Cons n ns)
  show ?case
  proof (cases "releaseNote (key (heap s n)) (transportSeconds s) toneNow s")
    case (Returned s1)
    then have "modelStartTime s1 = modelStartTime s"
      using releaseNote_modelStartTime [of "key (heap s n)" "transportSeconds s" toneNow s] by simp
    with Returned Cons.IH [of s1] show ?thesis by simp
  next
    case (Threw e s1)
    then have "modelStartTime s1 = modelStartTime s"
      using releaseNote_modelStartTime [of "key (heap s n)" "transportSeconds s" toneNow s] by simp
    with Threw show ?thesis by simp
  qed
qed

lemma callModel_modelStartTime [simp]:
  "modelStartTime (callModel now sched s) = modelStartTime s"
  by (simp add: callModel_def split: option.splits)

lemma callModel_notes_modelStartTime [simp]:
  "modelStartTime (callModel_notes sched gens s) = modelStartTime s"
  by (induction gens arbitrary: s) (simp_all add: split_def Let_def)

lemma callModel_resume_modelStartTime [simp]:
  "modelStartTime (callModel_resume c gens s) = modelStartTime s"
  by (simp add: callModel_resume_def Let_def split: option.splits)

lemma startModel_modelStartTime [simp]:
  "modelStartTime (startModel now now' s) = Some now"
  by (simp add: startModel_def Let_def)

lemma replay_notes_modelStartTime [simp]:
  "modelStartTime (replay_notes ns s) = modelStartTime s"
  by (induction ns arbitrary: s) (simp_all add: split_def Let_def)

lemma addToHistoryList_modelStartTime:
  "addToHistoryList h s = Returned x \<Longrightarrow> modelStartTime x = modelStartTime s"
  "addToHistoryList h s = Threw e x \<Longrightarrow> modelStartTime x = modelStartTime s"
  using addToHistoryList_fields(8) [of h s] by simp_all

lemma resetAll_modelStartTime:
  "modelStartTime (state_of (resetAll toneNow s)) = modelStartTime s \<or>
   modelStartTime (state_of (resetAll toneNow s)) = None"
proof (cases "releaseAllNotes toneNow s")
  case (Threw e s1)
  then have "modelStartTime s1 = modelStartTime s"
    using releaseAllNotes_loop_modelStartTime [of "activeNotes s" toneNow s]
    by (simp add: releaseAllNotes_def)
  with Threw show ?thesis by (simp add: resetAll_def)
next
  case (Returned s1)
  let ?s2 = "(stopModel s1)\<lparr>transportEvents := []\<rparr>"
  have "modelStartTime (state_of (resetAll toneNow s)) = None"
    using Returned
    by (cases "addToHistoryList (currHistory ?s2) ?s2")
      (auto simp: resetAll_def Let_def dest: addToHistoryList_modelStartTime)
  then show ?thesis ..
qed

lemma resetAll_Returned_modelStartTime:
  assumes "resetAll toneNow s = Returned s'"
  shows "modelStartTime s' = None"
proof (cases "releaseAllNotes toneNow s")
  case (Threw e s1)
  with assms show ?thesis by (simp add: resetAll_def)
next
  case (Returned s1)
  let ?s2 = "(stopModel s1)\<lparr>transportEvents := []\<rparr>"
  show ?thesis
    using Returned assms
    by (cases "addToHistoryList (currHistory ?s2) ?s2")
      (auto simp: resetAll_def Let_def dest: addToHistoryList_modelStartTime)
qed

lemma rewind_modelStartTime:
  "modelStartTime (snd (state_of (rewind s))) = modelStartTime s \<or>
   modelStartTime (snd (state_of (rewind s))) = None"
proof (cases "addToHistoryList (currHistory s) s")
  case (Threw e s1)
  then have "modelStartTime s1 = modelStartTime s"
    using addToHistoryList_fields(8) [of "currHistory s" s] by simp
  with Threw show ?thesis by (simp add: rewind_def)
next
  case (Returned s1)
  then show ?thesis
    by (simp add: rewind_def Let_def split: option.splits)
qed

lemma rewind_Returned_modelStartTime:
  assumes "rewind s = Returned (True, s')"
  shows "modelStartTime s' = None"
proof (cases "addToHistoryList (currHistory s) s")
  case (Threw e s1)
  with assms show ?thesis by (simp add: rewind_def split: if_splits)
next
  case (Returned s1)
  with assms show ?thesis
    by (auto simp: rewind_def Let_def split: option.splits if_splits)
qed

lemma seedInputAwaiter_modelStartTime:
  "modelStartTime (state_of (seedInputAwaiter currTime now now' detected s))
     \<in> {modelStartTime s, None, Some currTime, Some now}"
  by (simp add: seedInputAwaiter_def Let_def stopModel_def split: option.splits)

lemma step_stale:
  assumes "stale_after t0 s" "clock_after t0 e"
  shows "stale_after t0 (step e s)"
proof (cases e)
  case (Ev_resetAll toneNow)
  with assms resetAll_modelStartTime [of toneNow s] show ?thesis
    by (auto simp: stale_after_def)
next
  case Ev_rewind
  with assms rewind_modelStartTime [of s] show ?thesis
    by (auto simp: stale_after_def)
next
  case (Ev_seedInputAwaiter currTime now now' detected)
  with assms seedInputAwaiter_modelStartTime [of currTime now now' detected s] show ?thesis
    by (auto simp: stale_after_def)
next
  case (Ev_playNote n contextTime toneNow)
  with assms show ?thesis by (simp add: stale_after_def split_def new_Note_def)
next
  case (Ev_scheduleNote n)
  with assms show ?thesis by (simp add: stale_after_def split_def new_Note_def)
qed (use assms in \<open>simp_all add: stale_after_def releaseAllNotes_def seedInputListener_def
    scheduleStartModel_def\<close>)

lemma run_stale:
  "stale_after t0 s \<Longrightarrow> clocks_after t0 es \<Longrightarrow> stale_after t0 (run es s)"
  by (induction es arbitrary: s) (simp_all add: step_stale)

lemma stale_dropped: "stale_after (initiatedTime c) s \<Longrightarrow> callModel_resume c gens s = s"
  by (simp add: stale_after_def callModel_resume_def split: option.splits)

text \<open>
  Claim C1. A call of the model records its initiation time. When the engine is then
  stopped, reset or rewound (\<open>stopModel\<close> sets \<open>modelStartTime\<close> to null) and, whatever the
  engine does after that, every restart reads a clock later than the initiation time, the
  result of the call changes nothing when it arrives: no note is created, scheduled or
  buffered, \<open>callModelEnd\<close> and the current History stay as they are. The part of
  \<open>callModel\<close> that runs on arrival has no error outcome.
\<close>

theorem stale_model_result_dropped:
  assumes "s1 = stopModel s \<or> resetAll toneNow s = Returned s1 \<or> rewind s = Returned (True, s1)"
    and "clocks_after (initiatedTime c) es"
  shows "callModel_resume c gens (run es s1) = run es s1"
proof -
  have "modelStartTime s1 = None"
    using assms(1) resetAll_Returned_modelStartTime rewind_Returned_modelStartTime by auto
  then have "stale_after (initiatedTime c) s1"
    by (simp add: stale_after_def)
  then have "stale_after (initiatedTime c) (run es s1)"
    using assms(2) by (rule run_stale)
  then show ?thesis by (rule stale_dropped)
qed

theorem stale_model_result_dropped_witness:
  "clocks_after (initiatedTime ex_call) [Ev_startModel 1000 1000] \<and>
   callModel_resume ex_call [ex_generated] (run [Ev_startModel 1000 1000] (stopModel ex_active))
     = run [Ev_startModel 1000 1000] (stopModel ex_active) \<and>
   noteQueue (callModel_resume ex_call [ex_generated] ex_active) = [1]"
proof -
  have h: "clocks_after (initiatedTime ex_call) [Ev_startModel 1000 1000]"
    by (simp add: ex_call_def)
  have q: "noteQueue (callModel_resume ex_call [ex_generated] ex_active) = [1]"
    by (simp add: callModel_resume_def ex_call_def ex_active_def ex_piano_def initial_piano_def
        Let_def split_def)
  show ?thesis
    using h q stale_model_result_dropped [OF disjI1 [OF refl] h, of "[ex_generated]" ex_active]
    by simp
qed


section \<open>The seed input awaiter: confirm and abort\<close>

lemma callModel_fields [simp]:
  "transportSeconds (callModel now sched s) = transportSeconds s"
  "noteBuffer (callModel now sched s) = noteBuffer s"
  "noteQueue (callModel now sched s) = noteQueue s"
  "transportEvents (callModel now sched s) = transportEvents s"
  "audio_bpm (callModel now sched s) = audio_bpm s"
  "ticksPerBeat (callModel now sched s) = ticksPerBeat s"
  "callModelEnd (callModel now sched s) = callModelEnd s"
  "currHistory (callModel now sched s) = currHistory s"
  "heap (callModel now sched s) = heap s"
  "awaitingInput (callModel now sched s) = awaitingInput s"
  "listenerIntervalId (callModel now sched s) = listenerIntervalId s"
  by (simp_all add: callModel_def split: option.splits)

lemma callModel_issues:
  assumes "currHistory s = Some h"
  shows "\<exists>c. modelCalls (callModel now sched s) = modelCalls s @ [c] \<and>
     initiatedTime c = now \<and> scheduleImmediately c = sched \<and> windowEnd c = callModelEnd s"
  using assms by (simp add: callModel_def callModel_request_def Let_def)

lemma startModel_fields [simp]:
  "transportSeconds (startModel now now' s) = transportSeconds s"
  "noteBuffer (startModel now now' s) = noteBuffer s"
  "noteQueue (startModel now now' s) = noteQueue s"
  "transportEvents (startModel now now' s) = transportEvents s"
  "audio_bpm (startModel now now' s) = audio_bpm s"
  "ticksPerBeat (startModel now now' s) = ticksPerBeat s"
  "callModelEnd (startModel now now' s) = callModelEnd s"
  "currHistory (startModel now now' s) = currHistory s"
  "heap (startModel now now' s) = heap s"
  "callModelIntervalId (startModel now now' s) = Some (beatsToSeconds s bufferBeats * 1000)"
  "checkActivityIntervalId (startModel now now' s) = Some 5000"
  "modelCalls (startModel now now' s) = modelCalls (callModel now' True (s\<lparr>modelStartTime := Some now\<rparr>))"
  by (simp_all add: startModel_def Let_def beatsToSeconds_def)

lemma scheduleNotes_modelCalls [simp]: "modelCalls (scheduleNotes ns s) = modelCalls s"
  by (induction ns arbitrary: s) (simp_all add: scheduleNote_def)

text \<open>
  Claim C5. While a model call is pending (\<open>modelStartTime\<close> is not null): when no input
  activity has occurred for at least \<open>3 \<times> inputWaitTime\<close>, \<open>seedInputAwaiter\<close> sets the
  transport position to \<open>callModelEnd - bufferDuration\<close>, schedules every note of the buffer
  on the timeline, in order, empties the buffer, and starts the model: \<open>modelStartTime\<close> is
  set anew, a call of the model is issued at once (when there is a current History) and
  the periodic call is set up with the buffer duration as its period; the listener stops.
  When the last activity is less than \<open>inputWaitTime\<close> ago, it stops the model: queue and
  buffer are cleared and the result of a call in flight will be dropped.
\<close>

theorem seed_confirm_or_abort:
  assumes "modelStartTime s = Some started"
  shows "(currTime - lastActivity s \<ge> inputWaitTime * 3 \<longrightarrow>
           (\<exists>s'. seedInputAwaiter currTime now now' detected s = Returned s' \<and>
              transportSeconds s' = callModelEnd s - beatsToSeconds s bufferBeats \<and>
              noteBuffer s' = [] \<and>
              noteQueue s' = noteQueue s @ noteBuffer s \<and>
              map snd (transportEvents s') = map snd (transportEvents s) @ noteBuffer s \<and>
              modelStartTime s' = Some now \<and>
              callModelIntervalId s' = Some (beatsToSeconds s bufferBeats * 1000) \<and>
              (currHistory s \<noteq> None \<longrightarrow>
                 (\<exists>c. modelCalls s' = modelCalls s @ [c] \<and> initiatedTime c = now' \<and>
                    scheduleImmediately c \<and> windowEnd c = callModelEnd s)) \<and>
              \<not> awaitingInput s' \<and> listenerIntervalId s' = None)) \<and>
         (currTime - lastActivity s < inputWaitTime \<longrightarrow>
            seedInputAwaiter currTime now now' detected s = Returned (stopModel s) \<and>
            noteBuffer (stopModel s) = [] \<and> noteQueue (stopModel s) = [] \<and>
            modelStartTime (stopModel s) = None \<and>
            callModel_resume c gens (stopModel s) = stopModel s)"
proof (intro conjI impI)
  assume e: "inputWaitTime * 3 \<le> currTime - lastActivity s"
  then have n: "\<not> currTime - lastActivity s < inputWaitTime"
    by (simp add: inputWaitTime_def)
  let ?s1 = "s\<lparr>transportSeconds := callModelEnd s - beatsToSeconds s bufferBeats\<rparr>"
  let ?s3 = "(scheduleNotes (noteBuffer ?s1) ?s1)\<lparr>noteBuffer := []\<rparr>"
  let ?s' = "(startModel now now' ?s3)\<lparr>awaitingInput := False, listenerIntervalId := None\<rparr>"
  have r: "seedInputAwaiter currTime now now' detected s = Returned ?s'"
    using assms e n by (simp add: seedInputAwaiter_def Let_def)
  have b: "beatsToSeconds ?s3 bufferBeats = beatsToSeconds s bufferBeats"
    by (simp add: beatsToSeconds_def)
  have m: "currHistory s \<noteq> None \<longrightarrow>
      (\<exists>c. modelCalls ?s' = modelCalls s @ [c] \<and> initiatedTime c = now' \<and>
         scheduleImmediately c \<and> windowEnd c = callModelEnd s)"
  proof
    assume "currHistory s \<noteq> None"
    then obtain h where h: "currHistory (?s3\<lparr>modelStartTime := Some now\<rparr>) = Some h"
      by auto
    have q: "modelCalls (?s3\<lparr>modelStartTime := Some now\<rparr>) = modelCalls s"
      by simp
    from callModel_issues [OF h, of now' True] show "\<exists>c. modelCalls ?s' = modelCalls s @ [c] \<and>
        initiatedTime c = now' \<and> scheduleImmediately c \<and> windowEnd c = callModelEnd s"
      by (simp add: q)
  qed
  show "\<exists>s'. seedInputAwaiter currTime now now' detected s = Returned s' \<and>
              transportSeconds s' = callModelEnd s - beatsToSeconds s bufferBeats \<and>
              noteBuffer s' = [] \<and>
              noteQueue s' = noteQueue s @ noteBuffer s \<and>
              map snd (transportEvents s') = map snd (transportEvents s) @ noteBuffer s \<and>
              modelStartTime s' = Some now \<and>
              callModelIntervalId s' = Some (beatsToSeconds s bufferBeats * 1000) \<and>
              (currHistory s \<noteq> None \<longrightarrow>
                 (\<exists>c. modelCalls s' = modelCalls s @ [c] \<and> initiatedTime c = now' \<and>
                    scheduleImmediately c \<and> windowEnd c = callModelEnd s)) \<and>
              \<not> awaitingInput s' \<and> listenerIntervalId s' = None"
    using r m b by (intro exI [of _ ?s']) simp
next
  assume "currTime - lastActivity s < inputWaitTime"
  then show "seedInputAwaiter currTime now now' detected s = Returned (stopModel s)"
    using assms by (simp add: seedInputAwaiter_def)
qed (simp_all add: callModel_resume_def)

theorem seed_confirm_or_abort_witness:
  "(\<exists>s'. seedInputAwaiter 4500 4501 4502 80 ex_pending = Returned s' \<and>
      transportSeconds s' = 321/32 \<and> noteBuffer s' = [] \<and> noteQueue s' = [1] \<and>
      map snd (transportEvents s') = [1] \<and> modelStartTime s' = Some 4501 \<and>
      callModelIntervalId s' = Some 4500 \<and>
      (\<exists>c. modelCalls s' = [c] \<and> initiatedTime c = 4502 \<and> scheduleImmediately c \<and>
         windowEnd c = 465/32) \<and>
      \<not> awaitingInput s' \<and> listenerIntervalId s' = None) \<and>
   seedInputAwaiter 1000 1001 1002 80 ex_pending = Returned (stopModel ex_pending) \<and>
   noteBuffer (stopModel ex_pending) = [] \<and>
   callModel_resume ex_call [ex_generated] (stopModel ex_pending) = stopModel ex_pending"
proof -
  have h: "modelStartTime ex_pending = Some 1500"
    by (simp add: ex_pending_def)
  have v: "lastActivity ex_pending = 0" "callModelEnd ex_pending = 465/32"
    "noteBuffer ex_pending = [1]" "noteQueue ex_pending = []" "transportEvents ex_pending = []"
    "modelCalls ex_pending = []" "currHistory ex_pending = Some ex_history"
    by (simp_all add: ex_pending_def ex_piano_def initial_piano_def)
  have "audio_bpm ex_pending = 80" "ticksPerBeat ex_pending = 4"
    by (simp_all add: ex_pending_def ex_piano_def initial_piano_def defaultBPM_def)
  then have b: "beatsToSeconds ex_pending bufferBeats = 9/2"
    by (rule timebase_80(5))
  show ?thesis
    using seed_confirm_or_abort [OF h, of 4500 4501 4502 80 ex_call "[ex_generated]"]
      seed_confirm_or_abort [OF h, of 1000 1001 1002 80 ex_call "[ex_generated]"]
    by (simp add: v b inputWaitTime_def)
qed


section \<open>Rewind: the History and the replay window\<close>

lemma set_History_add [simp]: "set (History_add tm n ns) = insert n (set ns)"
  by (induction ns) auto

lemma sorted_History_add:
  "sorted (map tm ns) \<Longrightarrow> sorted (map tm (History_add tm n ns))"
  by (induction ns) (auto simp: less_imp_le)

lemma commit_queued_set:
  "set (commit_queued tm e qs hist) = set hist \<union> {q \<in> set qs. tm q \<le> e}"
  by (induction qs arbitrary: hist) auto

lemma commit_queued_sorted:
  "sorted (map tm hist) \<Longrightarrow> sorted (map tm (commit_queued tm e qs hist))"
  by (induction qs arbitrary: hist) (simp_all add: sorted_History_add)

lemma sorted_map_filter: "sorted (map f xs) \<Longrightarrow> sorted (map f (filter P xs))"
  by (induction xs) auto

lemma replay_window_sorted:
  assumes "sorted (map tm ns)"
  shows "History_removeHistory tm (History_getRecentHistory tm ns st) e
           = filter (\<lambda>n. st \<le> tm n \<and> tm n < e) ns"
proof -
  have "sorted (map tm (filter (\<lambda>n. st \<le> tm n) ns))"
    using assms by (rule sorted_map_filter)
  then show ?thesis
    using assms
    by (simp add: History_getRecentHistory_sorted History_removeHistory_sorted conj_commute)
qed

lemma upt_add_Suc: "[a ..< a + Suc k] = a # [Suc a ..< Suc a + k]"
  using upt_conv_Cons [of a "a + Suc k"] by (simp del: upt_Suc)

lemma replay_notes_result:
  assumes "\<forall>n\<in>set ns. n < nextRef s"
  shows "nextRef (replay_notes ns s) = nextRef s + length ns \<and>
     noteQueue (replay_notes ns s) = noteQueue s @ [nextRef s ..< nextRef s + length ns] \<and>
     transportEvents (replay_notes ns s) = transportEvents s @
       zip [nextScheduleId s ..< nextScheduleId s + length ns] [nextRef s ..< nextRef s + length ns] \<and>
     (\<forall>r < nextRef s. heap (replay_notes ns s) r = heap s r) \<and>
     (\<forall>i < length ns. heap (replay_notes ns s) (nextRef s + i)
        = replayed (heap s (ns ! i)) (nextScheduleId s + i))"
  using assms
proof (induction ns arbitrary: s)
  case Nil
  then show ?case by simp
next
  case (Cons n ns)
  let ?c = "\<lparr>key = key (heap s n), velocity = velocity (heap s n),
      duration = duration (heap s n), time = time (heap s n), actor = actor (heap s n),
      scheduleId = None, isRewind = True\<rparr>"
  let ?s1 = "scheduleNote (nextRef s) (snd (new_Note ?c s))"
  have e: "replay_notes (n # ns) s = replay_notes ns ?s1"
    by (simp add: Let_def split_def)
  have f: "nextRef ?s1 = Suc (nextRef s)" "nextScheduleId ?s1 = Suc (nextScheduleId s)"
    "noteQueue ?s1 = noteQueue s @ [nextRef s]"
    "transportEvents ?s1 = transportEvents s @ [(nextScheduleId s, nextRef s)]"
    by simp_all
  have h1: "heap ?s1 (nextRef s) = replayed (heap s n) (nextScheduleId s)"
    by (simp add: replayed_def)
  have h2: "\<forall>r < nextRef s. heap ?s1 r = heap s r"
    by simp
  have a: "\<forall>m\<in>set ns. m < nextRef ?s1"
    using Cons.prems by (simp add: less_SucI)
  note ih = Cons.IH [OF a, unfolded f]
  have u: "[nextRef s ..< nextRef s + length (n # ns)]
      = nextRef s # [Suc (nextRef s) ..< Suc (nextRef s) + length ns]"
    "[nextScheduleId s ..< nextScheduleId s + length (n # ns)]
      = nextScheduleId s # [Suc (nextScheduleId s) ..< Suc (nextScheduleId s) + length ns]"
    using upt_add_Suc [of "nextRef s" "length ns"] upt_add_Suc [of "nextScheduleId s" "length ns"]
    by (simp_all del: upt_Suc)
  have old: "\<forall>r < nextRef s. heap (replay_notes ns ?s1) r = heap s r"
    using ih h2 by (simp add: less_SucI)
  have new: "heap (replay_notes ns ?s1) (nextRef s + i)
        = replayed (heap s ((n # ns) ! i)) (nextScheduleId s + i)" if "i < length (n # ns)" for i
  proof (cases i)
    case 0
    then show ?thesis using ih h1 by simp
  next
    case (Suc j)
    then have j: "j < length ns" using that by simp
    then have "ns ! j < nextRef s" using Cons.prems by simp
    then have "heap ?s1 (ns ! j) = heap s (ns ! j)" using h2 by blast
    then show ?thesis using ih j Suc by simp
  qed
  show ?case
    unfolding e u using ih old new by simp
qed
lemma replay_notes_currHistory [simp]: "currHistory (replay_notes ns s) = currHistory s"
  by (induction ns arbitrary: s) (simp_all add: split_def Let_def)

text \<open>
  Claim C4. Let \<open>rewind\<close> go through from a state whose current History is in
  non-decreasing time order and whose notes are notes of the store, and let \<open>T\<close> be the new
  position and \<open>E\<close> the new \<open>callModelEnd\<close>. The notes committed to the History are its notes
  and every note that was queued with \<open>time \<le> E\<close>, in time order; the current History is
  then exactly the committed notes with \<open>time < T\<close>; and the replay window is exactly the
  committed notes with \<open>T \<le> time < E\<close>: for each of them, in order, a new note with the same
  fields and \<open>isRewind = true\<close> is queued and scheduled. The notes that existed are not
  changed.
\<close>

theorem rewind_history_and_replay:
  assumes "toneStarted s" "\<not> awaitingInput s"
    and "currHistory s = Some h" "lastSeedNoteTime h = Some seed"
    and "isNew h \<longrightarrow> noteHistory h \<noteq> []"
    and "sorted (map (note_time s) (noteHistory h))"
    and "\<forall>n\<in>set (noteHistory h) \<union> set (noteQueue s). n < nextRef s"
    and "T = rewind_target s seed" "E = js_add T (replaySeconds s)"
    and "committed = rewind_committed s h seed"
    and "window = filter (\<lambda>n. T \<le> note_time s n \<and> note_time s n < E) committed"
  shows "\<exists>s'. rewind s = Returned (True, s') \<and>
     transportSeconds s' = T \<and> callModelEnd s' = E \<and>
     set committed = set (noteHistory h) \<union> {q \<in> set (noteQueue s). note_time s q \<le> E} \<and>
     sorted (map (note_time s) committed) \<and>
     map_option noteHistory (currHistory s') = Some (filter (\<lambda>n. note_time s n < T) committed) \<and>
     noteQueue s' = [nextRef s ..< nextRef s + length window] \<and>
     (\<forall>i < length window.
        heap s' (nextRef s + i) = replayed (heap s (window ! i)) (nextScheduleId s + i) \<and>
        (nextScheduleId s + i, nextRef s + i) \<in> set (transportEvents s')) \<and>
     (\<forall>n < nextRef s. heap s' n = heap s n)"
proof -
  let ?B = "rewind_base s h seed"
  let ?s' = "(replay_notes window ?B)\<lparr>startModelScheduleId := Some 800\<rparr>"
  have cs: "set committed = set (noteHistory h) \<union> {q \<in> set (noteQueue s). note_time s q \<le> E}"
    unfolding assms(10) rewind_committed_def assms(9) assms(8) by (rule commit_queued_set)
  have so: "sorted (map (note_time s) committed)"
    unfolding assms(10) rewind_committed_def using assms(6) by (rule commit_queued_sorted)
  have w: "rewind_window s h seed = window"
    unfolding rewind_window_def assms(11) assms(10) [symmetric] assms(9) assms(8) [symmetric]
    using so by (rule replay_window_sorted)
  have r: "rewind s = Returned (True, ?s')"
    using rewind_Returned [OF assms(1-5)] by (simp add: w)
  have tr: "History_removeHistory (note_time s) committed T = filter (\<lambda>n. note_time s n < T) committed"
    using so by (rule History_removeHistory_sorted)
  have hist: "map_option noteHistory (currHistory ?s') = Some (filter (\<lambda>n. note_time s n < T) committed)"
    using rewind_base_fields(12) [of s h seed] tr
    by (simp add: assms(8,10) replay_notes_currHistory)
  have "\<forall>n\<in>set window. n < nextRef ?B"
    using assms(7) cs by (auto simp: assms(11))
  note rp = replay_notes_result [OF this]
  have q: "noteQueue ?s' = [nextRef s ..< nextRef s + length window]"
    using rp by simp
  have old: "\<forall>n < nextRef s. heap ?s' n = heap s n"
    using rp by simp
  have new: "\<forall>i < length window.
        heap ?s' (nextRef s + i) = replayed (heap s (window ! i)) (nextScheduleId s + i) \<and>
        (nextScheduleId s + i, nextRef s + i) \<in> set (transportEvents ?s')"
  proof (intro allI impI conjI)
    fix i assume i: "i < length window"
    show "heap ?s' (nextRef s + i) = replayed (heap s (window ! i)) (nextScheduleId s + i)"
      using rp i by simp
    have "(nextScheduleId s + i, nextRef s + i) \<in>
        set (zip [nextScheduleId s ..< nextScheduleId s + length window]
                 [nextRef s ..< nextRef s + length window])"
      using i by (auto simp: set_zip intro!: exI [of _ i])
    then show "(nextScheduleId s + i, nextRef s + i) \<in> set (transportEvents ?s')"
      using rp by simp
  qed
  have "transportSeconds ?s' = T" "callModelEnd ?s' = E"
    by (simp_all add: assms(8,9))
  with r cs so hist q new old show ?thesis by blast
qed

theorem rewind_history_and_replay_witness:
  "sorted (map (note_time ex_example) (noteHistory ex_history)) \<and>
   rewind_target ex_example 10 = 225/32 \<and>
   rewind_committed ex_example ex_history 10 = [0, 1, 2, 3] \<and>
   (\<exists>s'. rewind ex_example = Returned (True, s') \<and>
      transportSeconds s' = 225/32 \<and> callModelEnd s' = 321/32 \<and>
      map_option noteHistory (currHistory s') = Some [0, 1] \<and>
      noteQueue s' = [4, 5] \<and>
      heap s' 4 = replayed (ex_bot_note 8 (Some 1)) 3 \<and>
      heap s' 5 = replayed (ex_bot_note 10 (Some 2)) 4 \<and>
      (3, 4) \<in> set (transportEvents s') \<and> (4, 5) \<in> set (transportEvents s'))"
proof -
  have v: "toneStarted ex_example" "\<not> awaitingInput ex_example"
    "currHistory ex_example = Some ex_history" "lastSeedNoteTime ex_history = Some 10"
    "noteHistory ex_history = [0]" "noteQueue ex_example = [1, 2, 3]"
    "nextRef ex_example = 4" "nextScheduleId ex_example = 3" "transportSeconds ex_example = 2"
    by (simp_all add: ex_example_def ex_piano_def ex_history_def initial_piano_def History_new_def)
  have tm: "note_time ex_example 0 = 1" "note_time ex_example 1 = 5"
    "note_time ex_example 2 = 8" "note_time ex_example 3 = 10"
    "note_time ex_example (Suc 0) = 5"
    by (simp_all add: note_time_def ex_example_def ex_bot_note_def)
  have hp: "heap ex_example 2 = ex_bot_note 8 (Some 1)" "heap ex_example 3 = ex_bot_note 10 (Some 2)"
    by (simp_all add: ex_example_def)
  have b: "audio_bpm ex_example = 80" "ticksPerBeat ex_example = 4"
    by (simp_all add: ex_example_def ex_piano_def initial_piano_def defaultBPM_def)
  note tb = timebase_80 [OF b]
  have rs: "replaySeconds ex_example = 3"
    by (rule tb(4))
  have T: "rewind_target ex_example 10 = 225/32"
    by (simp add: rewind_target_def tb v)
  have c: "rewind_committed ex_example ex_history 10 = [0, 1, 2, 3]"
    by (simp add: rewind_committed_def T tb v tm)
  have h: "isNew ex_history \<longrightarrow> noteHistory ex_history \<noteq> []"
    "sorted (map (note_time ex_example) (noteHistory ex_history))"
    "\<forall>n\<in>set (noteHistory ex_history) \<union> set (noteQueue ex_example). n < nextRef ex_example"
    by (simp_all add: v)
  have w: "filter (\<lambda>n. 225/32 \<le> note_time ex_example n \<and> note_time ex_example n < 321/32)
      [0, 1, 2, 3] = [2, 3]"
    by (simp add: tm)
  have k: "filter (\<lambda>n. note_time ex_example n < 225/32) [0, 1, 2, 3] = [0, 1]"
    by (simp add: tm)
  have hT: "225/32 = rewind_target ex_example 10" using T by simp
  have hE: "321/32 = js_add (225/32) (replaySeconds ex_example)" using tb by simp
  have hc: "[0, 1, 2, 3] = rewind_committed ex_example ex_history 10" using c by simp
  note t = rewind_history_and_replay [OF v(1-4) h hT hE hc w [symmetric], unfolded k]
  then obtain s' where s': "rewind ex_example = Returned (True, s')"
    "transportSeconds s' = 225/32" "callModelEnd s' = 321/32"
    "map_option noteHistory (currHistory s') = Some [0, 1]"
    "noteQueue s' = [nextRef ex_example ..< nextRef ex_example + length [2, 3 :: nat]]"
    "\<forall>i<length [2, 3 :: nat].
        heap s' (nextRef ex_example + i)
          = replayed (heap ex_example ([2, 3] ! i)) (nextScheduleId ex_example + i) \<and>
        (nextScheduleId ex_example + i, nextRef ex_example + i) \<in> set (transportEvents s')"
    by blast
  have n: "heap s' 4 = replayed (ex_bot_note 8 (Some 1)) 3"
    "heap s' 5 = replayed (ex_bot_note 10 (Some 2)) 4"
    "(3, 4) \<in> set (transportEvents s')" "(4, 5) \<in> set (transportEvents s')"
    using s'(6) [rule_format, of 0] s'(6) [rule_format, of 1]
    by (simp_all add: v hp)
  have q: "noteQueue s' = [4, 5]"
    using s'(5) by (simp add: v upt_conv_Cons)
  show ?thesis
    using s'(1-4) n q h(2) T c by auto
qed

end
